theory Spec2Isabelle
  imports Complex_Main "HOL-Library.Multiset" "HOL-Library.Code_Target_Nat"
begin

section \<open>Element types, vectors and iterators\<close>

text \<open>
  The routines of \<^verbatim>\<open>main.cpp\<close> are templates over the element type \<open>T\<close>.  The
  operators of \<open>T\<close> that a template body names are resolved when the template is
  instantiated, so an instance is modelled by the record of the operators of its element
  type: \<^verbatim>\<open>operator<\<close>, \<^verbatim>\<open>operator>\<close>, and the stream operators
  \<^verbatim>\<open><<\<close> and \<^verbatim>\<open>>>\<close>.  For \<^verbatim>\<open>float\<close> all four come with the language and its
  library; the class \<^verbatim>\<open>Cat\<close> declares \<^verbatim>\<open><\<close>, \<^verbatim>\<open><<\<close> and \<^verbatim>\<open>>>\<close> only.
\<close>

record 'a elem_ops =
  op_less :: "'a \<Rightarrow> 'a \<Rightarrow> bool"
  op_greater :: "'a \<Rightarrow> 'a \<Rightarrow> bool"
  op_put :: "'a \<Rightarrow> string"
  op_get :: "string \<Rightarrow> ('a \<times> string) option"

text \<open>
  A \<^verbatim>\<open>vector<T>\<close> is a list.  An iterator is its offset from \<^verbatim>\<open>v.begin()\<close>, an
  integer: \<^verbatim>\<open>quick_sort\<close> computes positions before \<^verbatim>\<open>begin()\<close>, which stay
  harmless as long as they are not dereferenced.  Dereferencing an iterator outside the
  vector is undefined behaviour in C++; in the model it makes the routine return \<open>None\<close>.
\<close>

text \<open>
  The counters of the routines are C++ \<^verbatim>\<open>int\<close>s, of 32 bits.  The totals
  \<^verbatim>\<open>comparisons_total\<close> and \<^verbatim>\<open>swaps_total\<close> grow with the square of the number of
  elements and leave the range of \<^verbatim>\<open>int\<close> on vectors that fit in memory with ease: the
  additions \<^verbatim>\<open>swaps_total += swaps\<close> and \<^verbatim>\<open>comparisons_total += comparisons\<close> are
  modelled with the wrap-around of the machine, and a total is the value that the variable
  holds and that the routine prints.  The counters of one pass, \<^verbatim>\<open>pass\<close>, \<^verbatim>\<open>n\<close> and
  \<^verbatim>\<open>start_index\<close> never exceed the number of elements of the vector, which is taken to
  be in the range of \<^verbatim>\<open>int\<close>, and are integers.
\<close>

definition wrap_int :: "int \<Rightarrow> int" where
  "wrap_int x = (x + 2 ^ 31) mod 2 ^ 32 - 2 ^ 31"

definition valid :: "'a list \<Rightarrow> int \<Rightarrow> bool" where
  "valid v it \<longleftrightarrow> 0 \<le> it \<and> it < int (length v)"

definition deref :: "'a list \<Rightarrow> int \<Rightarrow> 'a" where
  "deref v it = v ! nat it"

definition assign :: "'a list \<Rightarrow> int \<Rightarrow> 'a \<Rightarrow> 'a list" where
  "assign v it x = v[nat it := x]"

text \<open>What the routines return besides the sorted vector: their totals, the value of the
  pass counter when the outer loop was left, and the text written to standard output.\<close>

record 'a sort_result =
  vec :: "'a list"
  total_comparisons :: int
  total_swaps :: int
  last_pass :: int
  console :: string

section \<open>Console output\<close>

definition endl :: string where
  "endl = [CHR 0x0A]"

function show_nat :: "nat \<Rightarrow> string" where
  "show_nat n = (if n < 10 then [char_of (48 + n)] else show_nat (n div 10) @ [char_of (48 + n mod 10)])"
  by pat_completeness auto
termination
  by (relation "measure id") auto

definition show_int :: "int \<Rightarrow> string" where
  "show_int i = (if i < 0 then CHR ''-'' # show_nat (nat (- i)) else show_nat (nat i))"

definition print_vector :: "'a elem_ops \<Rightarrow> 'a list \<Rightarrow> string" where
  "print_vector ops v = ''[ '' @ concat (map (\<lambda>x. op_put ops x @ '' '') v) @ '']'' @ endl"

definition pass_report :: "'a elem_ops \<Rightarrow> int \<Rightarrow> int \<Rightarrow> int \<Rightarrow> 'a list \<Rightarrow> string" where
  "pass_report ops pass comparisons swaps v =
     endl @ ''Pass: '' @ show_int pass @ endl
     @ ''Comparisons: '' @ show_int comparisons @ endl
     @ ''Swaps: '' @ show_int swaps @ endl
     @ print_vector ops v"

definition totals_report :: "int \<Rightarrow> int \<Rightarrow> string" where
  "totals_report comparisons_total swaps_total =
     ''-------------------------------'' @ endl
     @ ''Total Comparisons: '' @ show_int comparisons_total @ endl
     @ ''Total Swaps: '' @ show_int swaps_total @ endl
     @ ''-------------------------------'' @ endl"

definition debug_off :: string where
  "debug_off = ''List is greater than 10 elements. Debug is switched off!'' @ endl"

section \<open>Bubble sort\<close>

text \<open>The inner loop \<^verbatim>\<open>while (e2 < end)\<close> of \<^verbatim>\<open>bubble_sort\<close>: one pass over the
  positions before \<open>endp\<close>.\<close>

function bubble_inner ::
  "'a elem_ops \<Rightarrow> 'a list \<Rightarrow> int \<Rightarrow> int \<Rightarrow> int \<Rightarrow> int \<Rightarrow> int \<Rightarrow> ('a list \<times> int \<times> int) option" where
  "bubble_inner ops v e1 e2 endp comparisons swaps =
     (if e2 < endp then
        (if valid v e1 \<and> valid v e2 then
           (if op_less ops (deref v e2) (deref v e1) then
              (let tmp = deref v e1;
                   v1 = assign v e1 (deref v e2);
                   v2 = assign v1 e2 tmp
               in bubble_inner ops v2 (e1 + 1) (e2 + 1) endp (comparisons + 1) (swaps + 1))
            else bubble_inner ops v (e1 + 1) (e2 + 1) endp (comparisons + 1) swaps)
         else None)
      else Some (v, comparisons, swaps))"
  by pat_completeness auto
termination
  by (relation "measure (\<lambda>(ops, v, e1, e2, endp, comparisons, swaps). nat (endp - e2))") auto
declare bubble_inner.simps [simp del]

lemma bubble_inner_no_room:
  "endp \<le> e2 \<Longrightarrow> bubble_inner ops v e1 e2 endp c s = Some (v, c, s)"
  by (simp add: bubble_inner.simps)

text \<open>The outer loop \<^verbatim>\<open>while (1)\<close>: a pass, its report, the totals, and the test that
  ends the sort.\<close>

function bubble_outer ::
  "'a elem_ops \<Rightarrow> bool \<Rightarrow> 'a list \<Rightarrow> int \<Rightarrow> int \<Rightarrow> int \<Rightarrow> int \<Rightarrow> string \<Rightarrow> 'a sort_result option" where
  "bubble_outer ops debug v endp pass comparisons_total swaps_total out =
     (case bubble_inner ops v 0 1 endp 0 0 of
        None \<Rightarrow> None
      | Some (v', comparisons, swaps) \<Rightarrow>
          (let out' = (if debug then out @ pass_report ops pass comparisons swaps v' else out);
               swaps_total' = wrap_int (swaps_total + swaps);
               comparisons_total' = wrap_int (comparisons_total + comparisons)
           in if swaps = 0
              then Some \<lparr>vec = v', total_comparisons = comparisons_total',
                          total_swaps = swaps_total', last_pass = pass, console = out'\<rparr>
              else bubble_outer ops debug v' (endp - 1) (pass + 1)
                     comparisons_total' swaps_total' out'))"
  by pat_completeness auto
termination
proof (relation "measure (\<lambda>(ops, debug, v, endp, pass, ct, st, out). nat endp)", goal_cases)
  case 1
  show ?case by simp
next
  case (2 ops debug v endp pass ct st out x2 v' y comparisons swaps)
  have "1 < endp"
  proof (rule ccontr)
    assume "\<not> 1 < endp"
    then have "bubble_inner ops v 0 1 endp 0 0 = Some (v, 0, 0)"
      by (simp add: bubble_inner_no_room)
    with 2 show False by auto
  qed
  then show ?case by simp
qed
declare bubble_outer.simps [simp del]

definition bubble_sort :: "'a elem_ops \<Rightarrow> 'a list \<Rightarrow> 'a sort_result option" where
  "bubble_sort ops v =
     (let debug = \<not> 10 < length v;
          out = (if 10 < length v then debug_off else [])
      in case bubble_outer ops debug v (int (length v)) 1 0 0 out of
           None \<Rightarrow> None
         | Some r \<Rightarrow>
             Some (r\<lparr>console := console r
                       @ totals_report (total_comparisons r) (total_swaps r)\<rparr>))"

section \<open>Shuttle sort\<close>

text \<open>The inner loop \<^verbatim>\<open>while (e2 != v.end())\<close> of \<^verbatim>\<open>shuttle_sort\<close>: the pair at
  \<open>e1\<close>, \<open>e2\<close> is swapped and the comparison moves one place to the left, until a pair
  is in order or the top of the vector is reached.\<close>

function shuttle_inner ::
  "'a elem_ops \<Rightarrow> 'a list \<Rightarrow> int \<Rightarrow> int \<Rightarrow> int \<Rightarrow> int \<Rightarrow> ('a list \<times> int \<times> int) option" where
  "shuttle_inner ops v e1 e2 comparisons swaps =
     (if e2 \<noteq> int (length v) then
        (if valid v e1 \<and> valid v e2 then
           (if op_less ops (deref v e2) (deref v e1) then
              (let tmp = deref v e1;
                   v1 = assign v e1 (deref v e2);
                   v2 = assign v1 e2 tmp
               in if e1 = 0 then Some (v2, comparisons + 1, swaps + 1)
                  else if 0 < e1
                    then shuttle_inner ops v2 (e1 - 1) (e2 - 1) (comparisons + 1) (swaps + 1)
                    else shuttle_inner ops v2 e1 e2 (comparisons + 1) (swaps + 1))
            else Some (v, comparisons + 1, swaps))
         else None)
      else Some (v, comparisons, swaps))"
  by pat_completeness auto
termination
  by (relation "measure (\<lambda>(ops, v, e1, e2, comparisons, swaps). nat e1)")
    (auto simp: valid_def)
declare shuttle_inner.simps [simp del]

text \<open>The outer loop \<^verbatim>\<open>while (pass <= n - 1)\<close>.\<close>

function shuttle_outer ::
  "'a elem_ops \<Rightarrow> bool \<Rightarrow> 'a list \<Rightarrow> int \<Rightarrow> int \<Rightarrow> int \<Rightarrow> int \<Rightarrow> int \<Rightarrow> string
   \<Rightarrow> 'a sort_result option" where
  "shuttle_outer ops debug v n start_index pass comparisons_total swaps_total out =
     (if pass \<le> n - 1 then
        (let e1 = 0 + start_index;
             e2 = e1 + 1
         in case shuttle_inner ops v e1 e2 0 0 of
              None \<Rightarrow> None
            | Some (v', comparisons, swaps) \<Rightarrow>
                (let swaps_total' = wrap_int (swaps_total + swaps);
                     comparisons_total' = wrap_int (comparisons_total + comparisons);
                     start_index' = start_index + 1;
                     out' = (if debug then out @ pass_report ops pass comparisons swaps v'
                             else out)
                 in shuttle_outer ops debug v' n start_index' (pass + 1)
                      comparisons_total' swaps_total' out'))
      else Some \<lparr>vec = v, total_comparisons = comparisons_total,
                  total_swaps = swaps_total, last_pass = pass, console = out\<rparr>)"
  by pat_completeness auto
termination
  by (relation "measure (\<lambda>(ops, debug, v, n, start_index, pass, ct, st, out). nat (n - pass))")
    auto
declare shuttle_outer.simps [simp del]

definition shuttle_sort :: "'a elem_ops \<Rightarrow> 'a list \<Rightarrow> 'a sort_result option" where
  "shuttle_sort ops v =
     (let n = int (length v);
          debug = \<not> 10 < length v;
          out = (if 10 < length v then debug_off else [])
      in case shuttle_outer ops debug v n 0 1 0 0 out of
           None \<Rightarrow> None
         | Some r \<Rightarrow>
             Some (r\<lparr>console := console r
                       @ totals_report (total_comparisons r) (total_swaps r)\<rparr>))"

section \<open>Quick sort\<close>

text \<open>The body of the loop \<^verbatim>\<open>while (e1 != pivot_it)\<close> of \<^verbatim>\<open>quick_sort\<close>: one
  iteration, from the values of \<open>v\<close>, the console, \<open>e1\<close>, \<open>pivot_it\<close> and \<open>e2\<close> to their
  next values.\<close>

definition partition_body ::
  "'a elem_ops \<Rightarrow> bool \<Rightarrow> 'a list \<Rightarrow> string \<Rightarrow> int \<Rightarrow> int \<Rightarrow> int
   \<Rightarrow> ('a list \<times> string \<times> int \<times> int \<times> int) option" where
  "partition_body ops debug v out e1 pivot_it e2 =
     (if valid v e1 \<and> valid v pivot_it then
        (if op_greater ops (deref v e1) (deref v pivot_it) then
           (if valid v e2 then
              (let tmp = deref v e1;
                   v1 = assign v e1 (deref v e2);
                   v2 = assign v1 e2 (deref v1 pivot_it);
                   v3 = assign v2 pivot_it tmp;
                   pivot_it' = e2;
                   e2' = pivot_it' - 1;
                   out' = (if debug then out @ print_vector ops v3 else out)
               in Some (v3, out', e1, pivot_it', e2'))
            else None)
         else Some (v, out, e1 + 1, pivot_it, e2))
      else None)"

lemma partition_body_measure:
  assumes "partition_body ops debug v out e1 pivot_it e2 = Some (v', out', e1', pivot_it', e2')"
  shows "length v' = length v"
    and "nat (int (length v') - e1') + nat (e2' + 1) < nat (int (length v) - e1) + nat (e2 + 1)"
  using assms
  by (auto simp: partition_body_def valid_def assign_def Let_def split: if_splits)

text \<open>The loop.  It returns the vector, the console, and the final values of \<open>pivot_it\<close>
  and \<open>e2\<close>, which the recursive calls use.\<close>

function partition_loop ::
  "'a elem_ops \<Rightarrow> bool \<Rightarrow> 'a list \<Rightarrow> string \<Rightarrow> int \<Rightarrow> int \<Rightarrow> int
   \<Rightarrow> ('a list \<times> string \<times> int \<times> int) option" where
  "partition_loop ops debug v out e1 pivot_it e2 =
     (if e1 \<noteq> pivot_it then
        (case partition_body ops debug v out e1 pivot_it e2 of
           None \<Rightarrow> None
         | Some (v', out', e1', pivot_it', e2') \<Rightarrow>
             partition_loop ops debug v' out' e1' pivot_it' e2')
      else Some (v, out, pivot_it, e2))"
  by pat_completeness auto
termination
proof (relation "measure (\<lambda>(ops, debug, v, out, e1, pivot_it, e2).
                  nat (int (length v) - e1) + nat (e2 + 1))", goal_cases)
  case 1
  show ?case by simp
next
  case (2 ops debug v out e1 pivot_it e2 x2 v' y out' z e1' w pivot_it' e2')
  then have "partition_body ops debug v out e1 pivot_it e2 = Some (v', out', e1', pivot_it', e2')"
    by simp
  from partition_body_measure(2) [OF this] show ?case by simp
qed
declare partition_loop.simps [simp del]

lemma partition_body_range:
  assumes "partition_body ops debug v out e1 pivot_it e2 = Some (v', out', e1', pivot_it', e2')"
    and "e1 < pivot_it" and "e2 = pivot_it - 1"
  shows "e1 \<le> e1'" and "e1' \<le> pivot_it'" and "pivot_it' \<le> pivot_it" and "e2' = pivot_it' - 1"
    and "pivot_it' - e1' = pivot_it - e1 - 1"
  using assms by (auto simp: partition_body_def Let_def split: if_splits)

lemma partition_loop_range:
  "partition_loop ops debug v out e1 pivot_it e2 = Some (v', out', pivot_it', e2')
   \<Longrightarrow> e1 \<le> pivot_it \<Longrightarrow> e2 = pivot_it - 1
   \<Longrightarrow> e1 \<le> pivot_it' \<and> pivot_it' \<le> pivot_it \<and> e2' = pivot_it' - 1"
proof (induction ops debug v out e1 pivot_it e2 rule: partition_loop.induct)
  case (1 ops debug v out e1 pivot_it e2)
  show ?case
  proof (cases "e1 = pivot_it")
    case True
    with "1.prems" show ?thesis by (simp add: partition_loop.simps)
  next
    case False
    from "1.prems"(1) False obtain w out1 f1 p1 f2
      where body: "partition_body ops debug v out e1 pivot_it e2 = Some (w, out1, f1, p1, f2)"
        and run: "partition_loop ops debug w out1 f1 p1 f2 = Some (v', out', pivot_it', e2')"
      by (subst (asm) partition_loop.simps) (auto split: option.splits)
    from False "1.prems"(2) have lt: "e1 < pivot_it" by simp
    note r = partition_body_range [OF body lt "1.prems"(3)]
    from "1.IH" [OF False body refl refl refl refl run r(2,4)] r
    show ?thesis by simp
  qed
qed

text \<open>\<^verbatim>\<open>quick_sort(v, start, end)\<close>: both bounds are positions of elements, \<open>endp\<close> the
  position of the pivot.\<close>

function quick_sort ::
  "'a elem_ops \<Rightarrow> 'a list \<Rightarrow> string \<Rightarrow> int \<Rightarrow> int \<Rightarrow> ('a list \<times> string) option" where
  "quick_sort ops v out start endp =
     (let pivot_it = endp;
          e1 = start;
          e2 = pivot_it - 1
      in if endp - start < 1 then Some (v, out)
         else
           (let debug = \<not> 10 < length v
            in case partition_loop ops debug v out e1 pivot_it e2 of
                 None \<Rightarrow> None
               | Some (v', out', pivot_it', e2') \<Rightarrow>
                   (case quick_sort ops v' out' (pivot_it' + 1) endp of
                      None \<Rightarrow> None
                    | Some (v'', out'') \<Rightarrow> quick_sort ops v'' out'' start e2')))"
  by pat_completeness auto
termination
proof (relation "measure (\<lambda>(ops, v, out, start, endp). nat (endp - start))", goal_cases)
  case 1
  show ?case by simp
next
  case (2 ops v out start endp pivot_it e1 e2 debug x2 v' y out' z pivot_it' e2')
  then have "partition_loop ops debug v out start endp (endp - 1) = Some (v', out', pivot_it', e2')"
    by simp
  from partition_loop_range [OF this] 2 show ?case by simp
next
  case (3 ops v out start endp pivot_it e1 e2 debug x2 v' y out' z pivot_it' e2' x2a v'' out'')
  then have "partition_loop ops debug v out start endp (endp - 1) = Some (v', out', pivot_it', e2')"
    by simp
  from partition_loop_range [OF this] 3 show ?case by simp
qed
declare quick_sort.simps [simp del]

section \<open>The class Cat\<close>

text \<open>The class \<^verbatim>\<open>Cat\<close>: one field, compared by \<^verbatim>\<open>operator<\<close> on the weight, written
  and read as its weight.  The class declares no \<^verbatim>\<open>operator>\<close>: an instance of a
  template that names \<^verbatim>\<open>>\<close> has to be given one, the parameter \<open>gt\<close> of \<open>cat_ops\<close>.
  The two stream operators of the class end without a \<^verbatim>\<open>return\<close>; the model takes
  them to return their stream.\<close>

record cat =
  m_weight :: int

definition cat_less :: "cat \<Rightarrow> cat \<Rightarrow> bool" where
  "cat_less cat1 cat2 \<longleftrightarrow> m_weight cat2 > m_weight cat1"

text \<open>The extraction of an \<^verbatim>\<open>int\<close> from a stream, as the library does it: white space
  is skipped, then come an optional sign and decimal digits; the extraction fails when
  there is no digit or the value is outside \<^verbatim>\<open>int\<close>.  It returns the value and the
  characters that are left.\<close>

definition is_space :: "char \<Rightarrow> bool" where
  "is_space c \<longleftrightarrow> c \<in> set [CHR '' '', CHR 0x09, CHR 0x0A, CHR 0x0B, CHR 0x0C, CHR 0x0D]"

definition is_digit :: "char \<Rightarrow> bool" where
  "is_digit c \<longleftrightarrow> (48 :: nat) \<le> of_char c \<and> (of_char c :: nat) \<le> 57"

definition digits_value :: "string \<Rightarrow> nat" where
  "digits_value ds = foldl (\<lambda>n c. 10 * n + (of_char c - 48)) 0 ds"

definition get_int :: "string \<Rightarrow> (int \<times> string) option" where
  "get_int s =
     (let s1 = dropWhile is_space s;
          negative = (s1 \<noteq> [] \<and> hd s1 = CHR ''-'');
          s2 = (if s1 \<noteq> [] \<and> (hd s1 = CHR ''-'' \<or> hd s1 = CHR ''+'') then tl s1 else s1);
          ds = takeWhile is_digit s2;
          rest = dropWhile is_digit s2;
          n = (if negative then - int (digits_value ds) else int (digits_value ds))
      in if ds = [] \<or> n < - (2 ^ 31) \<or> 2 ^ 31 - 1 < n then None else Some (n, rest))"

definition cat_get :: "string \<Rightarrow> (cat \<times> string) option" where
  "cat_get s = (case get_int s of None \<Rightarrow> None | Some (w, rest) \<Rightarrow> Some (\<lparr>m_weight = w\<rparr>, rest))"

definition cat_put :: "cat \<Rightarrow> string" where
  "cat_put c = show_int (m_weight c)"

definition cat_ops :: "(cat \<Rightarrow> cat \<Rightarrow> bool) \<Rightarrow> cat elem_ops" where
  "cat_ops gt = \<lparr>op_less = cat_less, op_greater = gt, op_put = cat_put, op_get = cat_get\<rparr>"

section \<open>Files, clock and standard output\<close>

text \<open>The state of the machine the program runs on: the files and their contents, the
  paths the operating system lets the program open in each mode, the readings of the
  clock, and what has been written to standard output.  \<^verbatim>\<open>fstream::open\<close> with no mode
  opens for reading and writing and needs the file to exist; with \<^verbatim>\<open>ios::out\<close> it
  creates or empties the file.\<close>

datatype open_mode = Default_mode | Out_mode

record timeval =
  tv_sec :: int
  tv_usec :: int

record world =
  files :: "string \<Rightarrow> string option"
  opens :: "string \<Rightarrow> open_mode \<Rightarrow> bool"
  clock :: "nat \<Rightarrow> timeval"
  ticks :: nat
  stdout :: string

definition is_open :: "world \<Rightarrow> string \<Rightarrow> open_mode \<Rightarrow> bool" where
  "is_open w path mode \<longleftrightarrow> opens w path mode \<and> (mode = Out_mode \<or> files w path \<noteq> None)"

definition cout :: "world \<Rightarrow> string \<Rightarrow> world" where
  "cout w s = w\<lparr>stdout := stdout w @ s\<rparr>"

definition could_not_open :: string where
  "could_not_open = ''Error! Could not open file'' @ endl"




section \<open>File utilities and the driver\<close>


definition dump_vector :: "'a elem_ops \<Rightarrow> 'a list \<Rightarrow> string \<Rightarrow> world \<Rightarrow> world" where
  "dump_vector ops v output_file w =
     (if \<not> is_open w output_file Out_mode then cout w could_not_open
      else w\<lparr>files := (files w)(output_file \<mapsto> concat (map (\<lambda>x. op_put ops x @ endl) v))\<rparr>)"

text \<open>The loop \<^verbatim>\<open>while (data >> number)\<close> that fills a vector from a stream, here the
  characters still to be read.  An extraction that succeeds consumes at least one
  character; the loop of the model ends where one does not.\<close>

function read_all :: "'a elem_ops \<Rightarrow> string \<Rightarrow> 'a list" where
  "read_all ops s =
     (case op_get ops s of
        None \<Rightarrow> []
      | Some (x, rest) \<Rightarrow> if length rest < length s then x # read_all ops rest else [])"
  by pat_completeness auto
termination
  by (relation "measure (\<lambda>(ops, s). length s)") auto

declare read_all.simps [simp del]





section \<open>Orderings\<close>

text \<open>The comparison of an element type is a strict weak order when it is irreflexive and
  transitive and incomparability is transitive too.  Two elements are equivalent when
  neither is less than the other; a sequence is non-decreasing when no later element is
  less than an earlier one.  The two comparisons of an element type agree when
  \<^verbatim>\<open>>\<close> is the converse of \<^verbatim>\<open><\<close>.\<close>

definition strict_weak_order :: "('a \<Rightarrow> 'a \<Rightarrow> bool) \<Rightarrow> bool" where
  "strict_weak_order lt \<longleftrightarrow>
     (\<forall>x. \<not> lt x x) \<and> (\<forall>x y z. lt x y \<longrightarrow> lt y z \<longrightarrow> lt x z)
     \<and> (\<forall>x y z. \<not> lt x y \<longrightarrow> \<not> lt y z \<longrightarrow> \<not> lt x z)"

definition equivalent :: "('a \<Rightarrow> 'a \<Rightarrow> bool) \<Rightarrow> 'a \<Rightarrow> 'a \<Rightarrow> bool" where
  "equivalent lt x y \<longleftrightarrow> \<not> lt x y \<and> \<not> lt y x"

definition non_decreasing :: "('a \<Rightarrow> 'a \<Rightarrow> bool) \<Rightarrow> 'a list \<Rightarrow> bool" where
  "non_decreasing lt xs = sorted_wrt (\<lambda>x y. \<not> lt y x) xs"

definition greater_converse :: "'a elem_ops \<Rightarrow> bool" where
  "greater_converse ops \<longleftrightarrow> (\<forall>x y. op_greater ops x y \<longleftrightarrow> op_less ops y x)"

section \<open>The passes on lists\<close>

text \<open>One pass, on lists: what the inner loop does to the segment it scans, and how
  many swaps it makes.\<close>

fun bubble_pass :: "('a \<Rightarrow> 'a \<Rightarrow> bool) \<Rightarrow> 'a list \<Rightarrow> 'a list" where
  "bubble_pass lt (x # y # xs) =
     (if lt y x then y # bubble_pass lt (x # xs) else x # bubble_pass lt (y # xs))"
| "bubble_pass lt xs = xs"

fun bubble_pass_swaps :: "('a \<Rightarrow> 'a \<Rightarrow> bool) \<Rightarrow> 'a list \<Rightarrow> int" where
  "bubble_pass_swaps lt (x # y # xs) =
     (if lt y x then bubble_pass_swaps lt (x # xs) + 1 else bubble_pass_swaps lt (y # xs))"
| "bubble_pass_swaps lt xs = 0"

text \<open>One pass, on lists: the element \<open>b\<close> at \<open>e2\<close> travels to the left through the
  elements before it, given nearest first.\<close>

fun shuttle_pass :: "('a \<Rightarrow> 'a \<Rightarrow> bool) \<Rightarrow> 'a \<Rightarrow> 'a list \<Rightarrow> 'a list" where
  "shuttle_pass lt b [] = [b]"
| "shuttle_pass lt b (a # r) = (if lt b a then a # shuttle_pass lt b r else b # a # r)"

fun shuttle_pass_swaps :: "('a \<Rightarrow> 'a \<Rightarrow> bool) \<Rightarrow> 'a \<Rightarrow> 'a list \<Rightarrow> int" where
  "shuttle_pass_swaps lt b [] = 0"
| "shuttle_pass_swaps lt b (a # r) = (if lt b a then shuttle_pass_swaps lt b r + 1 else 0)"

fun shuttle_pass_comparisons :: "('a \<Rightarrow> 'a \<Rightarrow> bool) \<Rightarrow> 'a \<Rightarrow> 'a list \<Rightarrow> int" where
  "shuttle_pass_comparisons lt b [] = 0"
| "shuttle_pass_comparisons lt b (a # r) =
     (if lt b a then shuttle_pass_comparisons lt b r + 1 else 1)"

section \<open>The stream operators of float\<close>

text \<open>
  The element type of \<^verbatim>\<open>test_sorting_algorithms\<close> is \<^verbatim>\<open>float\<close>, the binary
  floating-point numbers with a significand of 24 bits.  A \<^verbatim>\<open>float\<close> is modelled by the
  rational number it holds; the infinities and NaN, which the extraction never produces,
  and the sign of zero are left out.
\<close>

type_synonym float = rat

text \<open>Rounding to the nearest integer, a tie to the even one: the rounding of the
  machine, and of the library where it prints.\<close>

definition round_half_even :: "rat \<Rightarrow> int" where
  "round_half_even q =
     (let f = \<lfloor>q\<rfloor>; d = q - of_int f
      in if d < 1 / 2 then f else if 1 / 2 < d then f + 1 else if even f then f else f + 1)"

text \<open>The number of binary digits of a natural number.\<close>

function bit_length :: "nat \<Rightarrow> nat" where
  "bit_length n = (if n = 0 then 0 else Suc (bit_length (n div 2)))"
  by pat_completeness auto
termination
  by (relation "measure id") auto
declare bit_length.simps [simp del]

text \<open>The \<^verbatim>\<open>float\<close> nearest to a rational number \<open>q\<close>.  Its unit \<open>2 ^ s\<close> is the one
  that brings \<open>\<bar>q\<bar> / 2 ^ s\<close> between \<open>2 ^ 23\<close> and \<open>2 ^ 24\<close>, and no less than
  \<open>2 ^ (-149)\<close>, the unit of the smallest numbers.  There is none when the rounding
  reaches \<open>2 ^ 128\<close>.\<close>

definition to_float :: "rat \<Rightarrow> float option" where
  "to_float q =
     (if q = 0 then Some 0
      else
        (let a = \<bar>q\<bar>;
             t = int (bit_length (nat (fst (quotient_of a))))
                 - int (bit_length (nat (snd (quotient_of a))));
             s0 = t - 24;
             s1 = (if 2 ^ 24 \<le> a / 2 powi s0 then s0 + 1 else s0);
             s = max s1 (- 149);
             r = of_int (round_half_even (a / 2 powi s)) * 2 powi s
         in if 2 ^ 128 \<le> r then None else Some (if q < 0 then - r else r)))"

text \<open>The insertion \<^verbatim>\<open>out << x\<close> of a \<^verbatim>\<open>float\<close>.  Neither \<^verbatim>\<open>dump_vector\<close> nor
  \<^verbatim>\<open>print_vector\<close> sets a format or a precision, so the library writes the number as
  \<^verbatim>\<open>printf\<close> does with \<^verbatim>\<open>%g\<close> and the precision 6: the number is rounded to six
  significant decimal digits; with \<open>X\<close> the decimal exponent of the rounded number, the
  digits are written with an exponent when \<open>X < -4\<close> or \<open>6 \<le> X\<close> and in positional
  notation otherwise; zeros at the end of the fraction are dropped, and so is a decimal
  point with no digit after it.\<close>

definition decimal_exponent :: "rat \<Rightarrow> int" where
  "decimal_exponent a =
     (if 1 \<le> a then int (length (show_nat (nat \<lfloor>a\<rfloor>))) - 1
      else case find (\<lambda>k. 1 \<le> a * 10 ^ k)
                  [1 ..< Suc (length (show_nat (nat (snd (quotient_of a)))))] of
             Some k \<Rightarrow> - int k
           | None \<Rightarrow> 0)"

definition strip_zeros :: "string \<Rightarrow> string" where
  "strip_zeros ds = rev (dropWhile (\<lambda>c. c = CHR ''0'') (rev ds))"

definition put_float :: "float \<Rightarrow> string" where
  "put_float x =
     (if x = 0 then ''0''
      else
        (let a = \<bar>x\<bar>;
             x0 = decimal_exponent a;
             m0 = round_half_even (a / 10 powi (x0 - 5));
             m = (if m0 = 10 ^ 6 then 10 ^ 5 else m0);
             X = (if m0 = 10 ^ 6 then x0 + 1 else x0);
             ds = show_nat (nat m)
         in (if x < 0 then ''-'' else [])
            @ (if X < - 4 \<or> 6 \<le> X then
                 (let fr = strip_zeros (tl ds)
                  in hd ds # (if fr = [] then [] else CHR ''.'' # fr)
                     @ [CHR ''e'', if X < 0 then CHR ''-'' else CHR ''+'']
                     @ (if \<bar>X\<bar> < 10 then ''0'' else []) @ show_nat (nat \<bar>X\<bar>))
               else if 0 \<le> X then
                 (let fr = strip_zeros (drop (nat X + 1) ds)
                  in take (nat X + 1) ds @ (if fr = [] then [] else CHR ''.'' # fr))
               else ''0.'' @ replicate (nat (- X - 1)) (CHR ''0'') @ strip_zeros ds)))"

text \<open>The extraction \<^verbatim>\<open>data >> number\<close> of a \<^verbatim>\<open>float\<close>: white space is skipped, then
  come an optional sign, decimal digits with an optional point among them, and an
  optional exponent.  The extraction fails when there is no digit, when the letter of the
  exponent is not followed by digits, or when the number is too large for a \<^verbatim>\<open>float\<close>;
  otherwise it gives the \<^verbatim>\<open>float\<close> nearest to the number that was read.\<close>

definition get_exponent :: "string \<Rightarrow> (int \<times> string) option" where
  "get_exponent s =
     (if s \<noteq> [] \<and> (hd s = CHR ''e'' \<or> hd s = CHR ''E'') then
        (let s1 = tl s;
             negative = (s1 \<noteq> [] \<and> hd s1 = CHR ''-'');
             s2 = (if s1 \<noteq> [] \<and> (hd s1 = CHR ''-'' \<or> hd s1 = CHR ''+'') then tl s1 else s1);
             ds = takeWhile is_digit s2;
             n = (if negative then - int (digits_value ds) else int (digits_value ds))
         in if ds = [] then None else Some (n, dropWhile is_digit s2))
      else Some (0, s))"

definition get_float :: "string \<Rightarrow> (float \<times> string) option" where
  "get_float s =
     (let s1 = dropWhile is_space s;
          negative = (s1 \<noteq> [] \<and> hd s1 = CHR ''-'');
          s2 = (if s1 \<noteq> [] \<and> (hd s1 = CHR ''-'' \<or> hd s1 = CHR ''+'') then tl s1 else s1);
          ip = takeWhile is_digit s2;
          s3 = dropWhile is_digit s2;
          point = (s3 \<noteq> [] \<and> hd s3 = CHR ''.'');
          fp = (if point then takeWhile is_digit (tl s3) else []);
          s4 = (if point then dropWhile is_digit (tl s3) else s3)
      in if ip = [] \<and> fp = [] then None
         else case get_exponent s4 of
                None \<Rightarrow> None
              | Some (e, rest) \<Rightarrow>
                  (let q = of_nat (digits_value (ip @ fp)) * 10 powi (e - int (length fp))
                   in case to_float (if negative then - q else q) of
                        None \<Rightarrow> None
                      | Some x \<Rightarrow> Some (x, rest)))"

definition float_ops :: "float elem_ops" where
  "float_ops = \<lparr>op_less = (<), op_greater = (>), op_put = put_float, op_get = get_float\<rparr>"

section \<open>Element types and a machine for the examples\<close>

text \<open>A built-in arithmetic type, for which the language supplies both comparisons
  and the library both stream operators.\<close>

definition int_ops :: "int elem_ops" where
  "int_ops = \<lparr>op_less = (<), op_greater = (>), op_put = show_int, op_get = get_int\<rparr>"

text \<open>Elements with a key and a tag, compared by the key alone: two elements with the same
  key are equivalent and still distinguishable.\<close>

definition tagged_ops :: "(int \<times> char) elem_ops" where
  "tagged_ops = \<lparr>op_less = (\<lambda>a b. fst a < fst b), op_greater = (\<lambda>a b. fst a > fst b),
                  op_put = (\<lambda>a. show_int (fst a) @ [snd a]), op_get = (\<lambda>s. None)\<rparr>"


text \<open>A machine on which every file can be opened, and no file exists yet.\<close>

definition open_world :: world where
  "open_world = \<lparr>files = (\<lambda>path. None), opens = (\<lambda>path mode. True),
                  clock = (\<lambda>n. \<lparr>tv_sec = 0, tv_usec = 0\<rparr>), ticks = 0, stdout = []\<rparr>"

section \<open>Facts about orderings\<close>

lemma swo_irrefl: "strict_weak_order lt \<Longrightarrow> \<not> lt x x"
  by (simp add: strict_weak_order_def)

lemma swo_trans: "strict_weak_order lt \<Longrightarrow> lt x y \<Longrightarrow> lt y z \<Longrightarrow> lt x z"
  unfolding strict_weak_order_def by blast

lemma swo_neg_trans: "strict_weak_order lt \<Longrightarrow> \<not> lt x y \<Longrightarrow> \<not> lt y z \<Longrightarrow> \<not> lt x z"
  unfolding strict_weak_order_def by blast

lemma swo_asym: "strict_weak_order lt \<Longrightarrow> lt x y \<Longrightarrow> \<not> lt y x"
  using swo_irrefl swo_trans by metis

lemma equivalent_not_less:
  assumes "strict_weak_order lt" "equivalent lt z x" "equivalent lt z y"
  shows "\<not> lt y x"
  using assms swo_neg_trans [of lt y z x] by (simp add: equivalent_def)

lemma non_decreasing_append:
  "non_decreasing lt (xs @ ys) \<longleftrightarrow>
     non_decreasing lt xs \<and> non_decreasing lt ys \<and> (\<forall>x\<in>set xs. \<forall>y\<in>set ys. \<not> lt y x)"
  by (simp add: non_decreasing_def sorted_wrt_append)

lemma non_decreasing_Cons:
  "non_decreasing lt (x # ys) \<longleftrightarrow> (\<forall>y\<in>set ys. \<not> lt y x) \<and> non_decreasing lt ys"
  by (simp add: non_decreasing_def)

lemma non_decreasing_short: "length xs \<le> 1 \<Longrightarrow> non_decreasing lt xs"
  by (cases xs) (simp_all add: non_decreasing_def)


lemma tagged_ops_ordered: "strict_weak_order (op_less tagged_ops)"
  by (auto simp: tagged_ops_def strict_weak_order_def)

lemma cat_ops_ordered: "strict_weak_order (op_less (cat_ops gt))"
  by (auto simp: cat_ops_def cat_less_def strict_weak_order_def)

section \<open>The range of int\<close>

lemma wrap_int_zero: "wrap_int 0 = 0"
  by (simp add: wrap_int_def)




section \<open>Bubble sort on segments\<close>

lemma bubble_inner_segment:
  "bubble_inner ops (pre @ seg @ post) (int (length pre)) (int (length pre) + 1)
     (int (length pre + length seg)) c s
   = Some (pre @ bubble_pass (op_less ops) seg @ post, c + int (length seg - 1),
           s + bubble_pass_swaps (op_less ops) seg)"
proof (induction "op_less ops" seg arbitrary: pre c s rule: bubble_pass.induct)
  case (1 x y xs)
  let ?v = "pre @ (x # y # xs) @ post"
  have room: "int (length pre) + 1 < int (length pre + length (x # y # xs))" by simp
  have v1: "valid ?v (int (length pre))" and v2: "valid ?v (int (length pre) + 1)"
    by (simp_all add: valid_def)
  have d1: "deref ?v (int (length pre)) = x"
    by (simp add: deref_def)
  have d2: "deref ?v (int (length pre) + 1) = y"
    by (simp add: deref_def nat_add_distrib nth_append)
  show ?case
  proof (cases "op_less ops y x")
    case True
    have upd: "assign (assign ?v (int (length pre)) y) (int (length pre) + 1) x
               = (pre @ [y]) @ (x # xs) @ post"
      by (simp add: assign_def nat_add_distrib list_update_append)
    have "bubble_inner ops ?v (int (length pre)) (int (length pre) + 1)
            (int (length pre + length (x # y # xs))) c s
          = bubble_inner ops ((pre @ [y]) @ (x # xs) @ post) (int (length (pre @ [y])))
              (int (length (pre @ [y])) + 1) (int (length (pre @ [y]) + length (x # xs)))
              (c + 1) (s + 1)"
      using True room v1 v2 d1 d2 upd
      by (subst bubble_inner.simps) (simp add: Let_def add.commute)
    also have "\<dots> = Some ((pre @ [y]) @ bubble_pass (op_less ops) (x # xs) @ post,
                 (c + 1) + int (length (x # xs) - 1),
                 (s + 1) + bubble_pass_swaps (op_less ops) (x # xs))"
      using True by (rule "1.hyps"(1))
    finally show ?thesis using True by simp
  next
    case False
    have "bubble_inner ops ?v (int (length pre)) (int (length pre) + 1)
            (int (length pre + length (x # y # xs))) c s
          = bubble_inner ops ((pre @ [x]) @ (y # xs) @ post) (int (length (pre @ [x])))
              (int (length (pre @ [x])) + 1) (int (length (pre @ [x]) + length (y # xs)))
              (c + 1) s"
      using False room v1 v2 d1 d2
      by (subst bubble_inner.simps) (simp add: Let_def add.commute)
    also have "\<dots> = Some ((pre @ [x]) @ bubble_pass (op_less ops) (y # xs) @ post,
                 (c + 1) + int (length (y # xs) - 1),
                 s + bubble_pass_swaps (op_less ops) (y # xs))"
      using False by (rule "1.hyps"(2))
    finally show ?thesis using False by simp
  qed
qed (simp_all add: bubble_inner_no_room)

lemma length_bubble_pass: "length (bubble_pass lt xs) = length xs"
  by (induction lt xs rule: bubble_pass.induct) simp_all

lemma mset_bubble_pass: "mset (bubble_pass lt xs) = mset xs"
  by (induction lt xs rule: bubble_pass.induct) simp_all

lemma set_bubble_pass: "set (bubble_pass lt xs) = set xs"
  using mset_bubble_pass [of lt xs] by (metis set_mset_mset)

lemma bubble_pass_Nil_iff: "bubble_pass lt xs = [] \<longleftrightarrow> xs = []"
  using length_bubble_pass [of lt xs] by (metis length_0_conv)

lemma bubble_pass_swaps_nonneg: "0 \<le> bubble_pass_swaps lt xs"
  by (induction lt xs rule: bubble_pass_swaps.induct) simp_all

lemma bubble_pass_last_max:
  "strict_weak_order lt \<Longrightarrow> xs \<noteq> [] \<Longrightarrow> x \<in> set (bubble_pass lt xs)
   \<Longrightarrow> \<not> lt (last (bubble_pass lt xs)) x"
proof (induction lt xs arbitrary: x rule: bubble_pass.induct)
  case (1 lt a b xs)
  note swo = \<open>strict_weak_order lt\<close>
  show ?case
  proof (cases "lt b a")
    case True
    let ?r = "bubble_pass lt (a # xs)"
    have ne: "?r \<noteq> []" by (simp add: bubble_pass_Nil_iff)
    have IH: "\<And>z. z \<in> set ?r \<Longrightarrow> \<not> lt (last ?r) z"
      using "1.IH"(1) [OF True swo] by simp
    have a: "\<not> lt (last ?r) a" using IH [of a] by (simp add: set_bubble_pass)
    have b: "\<not> lt (last ?r) b" using swo_trans [OF swo _ True] a by blast
    from "1.prems"(3) True ne IH b show ?thesis by auto
  next
    case False
    let ?r = "bubble_pass lt (b # xs)"
    have ne: "?r \<noteq> []" by (simp add: bubble_pass_Nil_iff)
    have IH: "\<And>z. z \<in> set ?r \<Longrightarrow> \<not> lt (last ?r) z"
      using "1.IH"(2) [OF False swo] by simp
    have b: "\<not> lt (last ?r) b" using IH [of b] by (simp add: set_bubble_pass)
    have a: "\<not> lt (last ?r) a" using swo_neg_trans [OF swo b False] .
    from "1.prems"(3) False ne IH a show ?thesis by auto
  qed
qed (simp_all add: swo_irrefl)

lemma bubble_pass_no_swaps:
  "strict_weak_order lt \<Longrightarrow> bubble_pass_swaps lt xs = 0
   \<Longrightarrow> non_decreasing lt xs \<and> bubble_pass lt xs = xs"
proof (induction lt xs rule: bubble_pass.induct)
  case (1 lt a b xs)
  note swo = \<open>strict_weak_order lt\<close>
  have nb: "\<not> lt b a"
    using "1.prems"(2) bubble_pass_swaps_nonneg [of lt "a # xs"] by (auto split: if_splits)
  then have z: "bubble_pass_swaps lt (b # xs) = 0" using "1.prems"(2) by simp
  from "1.IH"(2) [OF nb swo z]
  have nd: "non_decreasing lt (b # xs)" and same: "bubble_pass lt (b # xs) = b # xs" by simp_all
  have "\<not> lt z a" if "z \<in> set (b # xs)" for z
  proof (cases "z = b")
    case True
    then show ?thesis using nb by simp
  next
    case False
    with that nd have "\<not> lt z b" by (auto simp: non_decreasing_def)
    then show ?thesis using swo_neg_trans [OF swo _ nb] by blast
  qed
  then show ?case using nd same nb by (simp add: non_decreasing_def)
qed (simp_all add: non_decreasing_def)

lemma bubble_pass_stable:
  "strict_weak_order lt
   \<Longrightarrow> filter (equivalent lt z) (bubble_pass lt xs) = filter (equivalent lt z) xs"
proof (induction lt xs rule: bubble_pass.induct)
  case (1 lt a b xs)
  note swo = \<open>strict_weak_order lt\<close>
  show ?case
  proof (cases "lt b a")
    case True
    have "\<not> (equivalent lt z a \<and> equivalent lt z b)"
      using equivalent_not_less [OF swo, of z a b] True by blast
    then show ?thesis using True "1.IH"(1) [OF True swo] by auto
  next
    case False
    then show ?thesis using "1.IH"(2) [OF False swo] by simp
  qed
qed simp_all


lemma bubble_pass_swaps_short: "length xs \<le> 1 \<Longrightarrow> bubble_pass_swaps lt xs = 0"
  by (cases xs; cases "tl xs") auto

lemma bubble_inner_whole:
  "bubble_inner ops (seg @ post) 0 1 (int (length seg)) 0 0
   = Some (bubble_pass (op_less ops) seg @ post, int (length seg - 1),
           bubble_pass_swaps (op_less ops) seg)"
  using bubble_inner_segment [of ops "[]" seg post 0 0] by simp

lemma bubble_outer_last:
  assumes "bubble_pass_swaps (op_less ops) seg = 0"
  shows "bubble_outer ops debug (seg @ post) (int (length seg)) pass ct st out =
     Some \<lparr>vec = bubble_pass (op_less ops) seg @ post,
           total_comparisons = wrap_int (ct + int (length seg - 1)),
           total_swaps = wrap_int st, last_pass = pass,
           console = (if debug
             then out @ pass_report ops pass (int (length seg - 1)) 0
                          (bubble_pass (op_less ops) seg @ post)
             else out)\<rparr>"
  using assms by (subst bubble_outer.simps) (simp add: bubble_inner_whole Let_def)

lemma bubble_outer_next:
  assumes "bubble_pass_swaps (op_less ops) seg \<noteq> 0"
  shows "bubble_outer ops debug (seg @ post) (int (length seg)) pass ct st out =
     bubble_outer ops debug
       (butlast (bubble_pass (op_less ops) seg) @ last (bubble_pass (op_less ops) seg) # post)
       (int (length (butlast (bubble_pass (op_less ops) seg)))) (pass + 1)
       (wrap_int (ct + int (length seg - 1)))
       (wrap_int (st + bubble_pass_swaps (op_less ops) seg))
       (if debug
        then out @ pass_report ops pass (int (length seg - 1))
                     (bubble_pass_swaps (op_less ops) seg) (bubble_pass (op_less ops) seg @ post)
        else out)"
proof -
  from assms have "seg \<noteq> []" by auto
  then have ne: "bubble_pass (op_less ops) seg \<noteq> []" by (simp add: bubble_pass_Nil_iff)
  have len: "int (length seg) - 1 = int (length (butlast (bubble_pass (op_less ops) seg)))"
    using \<open>seg \<noteq> []\<close> by (cases seg) (simp_all add: length_bubble_pass)
  have split: "bubble_pass (op_less ops) seg @ post
               = butlast (bubble_pass (op_less ops) seg)
                 @ last (bubble_pass (op_less ops) seg) # post"
    using ne by simp
  show ?thesis
    using assms
    by (subst bubble_outer.simps) (simp add: bubble_inner_whole Let_def len flip: split)
qed

lemma bubble_pass_shrinks:
  assumes "bubble_pass_swaps lt seg \<noteq> 0"
  shows "length (butlast (bubble_pass lt seg)) < length seg"
    and "butlast (bubble_pass lt seg) @ last (bubble_pass lt seg) # post = bubble_pass lt seg @ post"
proof -
  from assms have "seg \<noteq> []" by auto
  then show "length (butlast (bubble_pass lt seg)) < length seg"
    by (simp add: length_bubble_pass)
  from \<open>seg \<noteq> []\<close> have "bubble_pass lt seg \<noteq> []" by (simp add: bubble_pass_Nil_iff)
  then show "butlast (bubble_pass lt seg) @ last (bubble_pass lt seg) # post = bubble_pass lt seg @ post"
    by simp
qed


lemma bubble_outer_sorts:
  assumes swo: "strict_weak_order (op_less ops)"
  shows "non_decreasing (op_less ops) post
    \<Longrightarrow> \<forall>x\<in>set seg. \<forall>y\<in>set post. \<not> op_less ops y x
    \<Longrightarrow> \<exists>r. bubble_outer ops debug (seg @ post) (int (length seg)) pass ct st out = Some r
          \<and> non_decreasing (op_less ops) (vec r)
          \<and> (\<forall>z. filter (equivalent (op_less ops) z) (vec r)
                   = filter (equivalent (op_less ops) z) (seg @ post))"
proof (induction "length seg" arbitrary: seg post pass ct st out rule: less_induct)
  case less
  let ?lt = "op_less ops"
  let ?seg' = "bubble_pass ?lt seg"
  show ?case
  proof (cases "bubble_pass_swaps ?lt seg = 0")
    case True
    from bubble_pass_no_swaps [OF swo True]
    have "non_decreasing ?lt seg" and "?seg' = seg" by simp_all
    with less.prems show ?thesis
      by (simp add: bubble_outer_last [OF True] non_decreasing_append)
  next
    case False
    note shrink = bubble_pass_shrinks [OF False]
    from False have "seg \<noteq> []" by auto
    then have ne: "?seg' \<noteq> []" by (simp add: bubble_pass_Nil_iff)
    have sets: "set (butlast ?seg') \<subseteq> set seg" "last ?seg' \<in> set seg"
      using ne set_bubble_pass [of ?lt seg] in_set_butlastD last_in_set by fastforce+
    have post': "non_decreasing ?lt (last ?seg' # post)"
      using less.prems sets(2) by (simp add: non_decreasing_Cons)
    have max: "\<not> ?lt (last ?seg') x" if "x \<in> set (butlast ?seg')" for x
      using bubble_pass_last_max [OF swo \<open>seg \<noteq> []\<close>, of x] that in_set_butlastD by fastforce
    have bound: "\<forall>x\<in>set (butlast ?seg'). \<forall>y\<in>set (last ?seg' # post). \<not> ?lt y x"
      using max less.prems(2) sets(1) by auto
    have same: "filter (equivalent ?lt z) (butlast ?seg' @ last ?seg' # post)
                = filter (equivalent ?lt z) (seg @ post)" for z
      by (simp only: shrink(2)) (simp add: bubble_pass_stable [OF swo])
    show ?thesis
      unfolding bubble_outer_next [OF False] same [symmetric]
      by (rule less.hyps [OF shrink(1) post' bound])
  qed
qed





lemma bubble_sort_sorts:
  assumes "strict_weak_order (op_less ops)"
  shows "\<exists>r. bubble_sort ops v = Some r \<and> non_decreasing (op_less ops) (vec r)
           \<and> (\<forall>z. filter (equivalent (op_less ops) z) (vec r)
                    = filter (equivalent (op_less ops) z) v)"
proof -
  have "non_decreasing (op_less ops) []" by (simp add: non_decreasing_def)
  from bubble_outer_sorts [OF assms this, of v "\<not> 10 < length v"]
  obtain r where "bubble_outer ops (\<not> 10 < length v) (v @ []) (int (length v)) 1 0 0
                    (if 10 < length v then debug_off else []) = Some r"
    and "non_decreasing (op_less ops) (vec r)"
    and "\<forall>z. filter (equivalent (op_less ops) z) (vec r)
             = filter (equivalent (op_less ops) z) (v @ [])"
    by (metis empty_iff empty_set)
  then show ?thesis by (simp add: bubble_sort_def Let_def)
qed



section \<open>Shuttle sort on segments\<close>

lemma shuttle_inner_segment:
  "r \<noteq> []
   \<Longrightarrow> shuttle_inner ops (rev r @ b # post) (int (length r) - 1) (int (length r)) c s
       = Some (rev (shuttle_pass (op_less ops) b r) @ post,
               c + shuttle_pass_comparisons (op_less ops) b r,
               s + shuttle_pass_swaps (op_less ops) b r)"
proof (induction r arbitrary: post c s)
  case Nil
  then show ?case by simp
next
  case (Cons a r)
  let ?v = "rev (a # r) @ b # post"
  have e2: "int (length (a # r)) \<noteq> int (length ?v)" by simp
  have v1: "valid ?v (int (length (a # r)) - 1)" and v2: "valid ?v (int (length (a # r)))"
    by (simp_all add: valid_def)
  have d1: "deref ?v (int (length (a # r)) - 1) = a"
    by (simp add: deref_def nth_append)
  have d2: "deref ?v (int (length (a # r))) = b"
    by (simp add: deref_def nth_append nat_add_distrib)
  show ?case
  proof (cases "op_less ops b a")
    case False
    then show ?thesis
      using e2 v1 v2 d1 d2 by (subst shuttle_inner.simps) simp
  next
    case True
    have upd: "assign (assign ?v (int (length (a # r)) - 1) b) (int (length (a # r))) a
               = rev r @ b # a # post"
      by (simp add: assign_def list_update_append nat_add_distrib)
    show ?thesis
    proof (cases r)
      case Nil
      then show ?thesis
        using True e2 v1 v2 d1 d2 upd by (subst shuttle_inner.simps) (simp add: Let_def)
    next
      case (Cons a' r')
      then have ne: "r \<noteq> []" by simp
      have "shuttle_inner ops ?v (int (length (a # r)) - 1) (int (length (a # r))) c s
            = shuttle_inner ops (rev r @ b # a # post) (int (length r) - 1) (int (length r))
                (c + 1) (s + 1)"
        using True e2 v1 v2 d1 d2 upd ne
        by (subst shuttle_inner.simps) (simp add: Let_def)
      also have "\<dots> = Some (rev (shuttle_pass (op_less ops) b r) @ a # post,
                   (c + 1) + shuttle_pass_comparisons (op_less ops) b r,
                   (s + 1) + shuttle_pass_swaps (op_less ops) b r)"
        by (rule Cons.IH [OF ne])
      finally show ?thesis using True by simp
    qed
  qed
qed

lemma length_shuttle_pass: "length (shuttle_pass lt b r) = Suc (length r)"
  by (induction r) simp_all

lemma mset_shuttle_pass: "mset (shuttle_pass lt b r) = add_mset b (mset r)"
  by (induction r) simp_all

lemma set_shuttle_pass: "set (shuttle_pass lt b r) = insert b (set r)"
  by (induction r) auto

lemma shuttle_pass_sorted:
  assumes swo: "strict_weak_order lt"
  shows "sorted_wrt (\<lambda>x y. \<not> lt x y) r \<Longrightarrow> sorted_wrt (\<lambda>x y. \<not> lt x y) (shuttle_pass lt b r)"
proof (induction r)
  case Nil
  then show ?case by simp
next
  case (Cons a r)
  show ?case
  proof (cases "lt b a")
    case True
    then have "\<not> lt a b" using swo_asym [OF swo] by blast
    with True Cons show ?thesis by (simp add: set_shuttle_pass)
  next
    case False
    have "\<not> lt b y" if "y \<in> set r" for y
    proof -
      from Cons.prems that have "\<not> lt a y" by simp
      then show ?thesis using swo_neg_trans [OF swo False] by blast
    qed
    with False Cons.prems show ?thesis by simp
  qed
qed

lemma shuttle_pass_stable:
  assumes swo: "strict_weak_order lt"
  shows "filter (equivalent lt z) (shuttle_pass lt b r) = filter (equivalent lt z) (b # r)"
proof (induction r)
  case Nil
  then show ?case by simp
next
  case (Cons a r)
  show ?case
  proof (cases "lt b a")
    case True
    have "\<not> (equivalent lt z a \<and> equivalent lt z b)"
      using equivalent_not_less [OF swo, of z a b] True by blast
    then show ?thesis using True Cons.IH by auto
  next
    case False
    then show ?thesis by simp
  qed
qed

lemma shuttle_outer_done:
  "shuttle_outer ops debug v (int (length v)) start_index (int (length v)) ct st out
   = Some \<lparr>vec = v, total_comparisons = ct, total_swaps = st,
           last_pass = int (length v), console = out\<rparr>"
  by (subst shuttle_outer.simps) simp

lemma shuttle_outer_next:
  assumes "pre \<noteq> []" and "n = int (length pre + length (b # rest))"
  shows "shuttle_outer ops debug (pre @ b # rest) n (int (length pre) - 1) (int (length pre))
           ct st out
         = shuttle_outer ops debug (rev (shuttle_pass (op_less ops) b (rev pre)) @ rest) n
             (int (length (rev (shuttle_pass (op_less ops) b (rev pre)))) - 1)
             (int (length (rev (shuttle_pass (op_less ops) b (rev pre)))))
             (wrap_int (ct + shuttle_pass_comparisons (op_less ops) b (rev pre)))
             (wrap_int (st + shuttle_pass_swaps (op_less ops) b (rev pre)))
             (if debug
              then out @ pass_report ops (int (length pre))
                           (shuttle_pass_comparisons (op_less ops) b (rev pre))
                           (shuttle_pass_swaps (op_less ops) b (rev pre))
                           (rev (shuttle_pass (op_less ops) b (rev pre)) @ rest)
              else out)"
proof -
  have inner: "shuttle_inner ops (pre @ b # rest) (int (length pre) - 1) (int (length pre)) 0 0
               = Some (rev (shuttle_pass (op_less ops) b (rev pre)) @ rest,
                       shuttle_pass_comparisons (op_less ops) b (rev pre),
                       shuttle_pass_swaps (op_less ops) b (rev pre))"
    using shuttle_inner_segment [of "rev pre" ops b rest 0 0] assms(1) by simp
  have go: "int (length pre) \<le> n - 1" using assms(2) by simp
  show ?thesis
    using go
    by (subst shuttle_outer.simps)
      (simp add: inner Let_def length_shuttle_pass add.commute split del: if_split)
qed

lemma shuttle_outer_returns:
  "pre \<noteq> [] \<Longrightarrow> n = int (length pre + length rest)
   \<Longrightarrow> \<exists>r. shuttle_outer ops debug (pre @ rest) n (int (length pre) - 1) (int (length pre))
              ct st out = Some r
         \<and> mset (vec r) = mset (pre @ rest) \<and> last_pass r = n"
proof (induction rest arbitrary: pre ct st out)
  case Nil
  then show ?case using shuttle_outer_done [of ops debug pre] by simp
next
  case (Cons b rest)
  let ?pre' = "rev (shuttle_pass (op_less ops) b (rev pre))"
  have ne: "?pre' \<noteq> []" using length_shuttle_pass [of "op_less ops" b "rev pre"] by auto
  have n: "n = int (length ?pre' + length rest)"
    using Cons.prems(2) by (simp add: length_shuttle_pass)
  have same: "mset (?pre' @ rest) = mset (pre @ b # rest)"
    by (simp add: mset_shuttle_pass)
  show ?case
    unfolding shuttle_outer_next [OF Cons.prems] same [symmetric]
    by (rule Cons.IH [OF ne n])
qed

lemma shuttle_outer_sorts:
  assumes swo: "strict_weak_order (op_less ops)"
  shows "pre \<noteq> [] \<Longrightarrow> n = int (length pre + length rest) \<Longrightarrow> non_decreasing (op_less ops) pre
   \<Longrightarrow> \<exists>r. shuttle_outer ops debug (pre @ rest) n (int (length pre) - 1) (int (length pre))
              ct st out = Some r
         \<and> non_decreasing (op_less ops) (vec r)
         \<and> (\<forall>z. filter (equivalent (op_less ops) z) (vec r)
                  = filter (equivalent (op_less ops) z) (pre @ rest))"
proof (induction rest arbitrary: pre ct st out)
  case Nil
  then show ?case using shuttle_outer_done [of ops debug pre] by simp
next
  case (Cons b rest)
  let ?lt = "op_less ops"
  let ?pre' = "rev (shuttle_pass ?lt b (rev pre))"
  have ne: "?pre' \<noteq> []" using length_shuttle_pass [of ?lt b "rev pre"] by auto
  have n: "n = int (length ?pre' + length rest)"
    using Cons.prems(2) by (simp add: length_shuttle_pass)
  have "sorted_wrt (\<lambda>x y. \<not> ?lt x y) (rev pre)"
    using Cons.prems(3) by (simp add: non_decreasing_def sorted_wrt_rev)
  then have "sorted_wrt (\<lambda>x y. \<not> ?lt x y) (shuttle_pass ?lt b (rev pre))"
    by (rule shuttle_pass_sorted [OF swo])
  then have sorted: "non_decreasing ?lt ?pre'"
    by (simp add: non_decreasing_def sorted_wrt_rev)
  have same: "filter (equivalent ?lt z) (?pre' @ rest)
              = filter (equivalent ?lt z) (pre @ b # rest)" for z
    by (simp add: shuttle_pass_stable [OF swo] flip: rev_filter)
  show ?case
    unfolding shuttle_outer_next [OF Cons.prems(1,2)] same [symmetric]
    by (rule Cons.IH [OF ne n sorted])
qed

lemma shuttle_outer_whole:
  "\<exists>r. shuttle_outer ops debug v (int (length v)) 0 1 ct st out = Some r
       \<and> mset (vec r) = mset v
       \<and> last_pass r = (if v = [] then 1 else int (length v))
       \<and> (strict_weak_order (op_less ops)
            \<longrightarrow> non_decreasing (op_less ops) (vec r)
              \<and> (\<forall>z. filter (equivalent (op_less ops) z) (vec r)
                       = filter (equivalent (op_less ops) z) v))"
proof (cases v)
  case Nil
  then show ?thesis
    by (subst shuttle_outer.simps) (simp add: non_decreasing_def)
next
  case (Cons x rest)
  have n: "int (length v) = int (length [x] + length rest)" using Cons by simp
  from shuttle_outer_returns [OF _ n, of ops debug ct st out]
  obtain r where run: "shuttle_outer ops debug ([x] @ rest) (int (length v))
                         (int (length [x]) - 1) (int (length [x])) ct st out = Some r"
    and ms: "mset (vec r) = mset ([x] @ rest)" and lp: "last_pass r = int (length v)"
    by blast
  have ord: "non_decreasing (op_less ops) (vec r)
             \<and> (\<forall>z. filter (equivalent (op_less ops) z) (vec r)
                      = filter (equivalent (op_less ops) z) ([x] @ rest))"
    if swo: "strict_weak_order (op_less ops)"
  proof -
    have "non_decreasing (op_less ops) [x]" by (simp add: non_decreasing_def)
    from shuttle_outer_sorts [OF swo _ n this, of debug ct st out] run
    show ?thesis by auto
  qed
  from run ms lp ord show ?thesis unfolding Cons by (intro exI [of _ r]) simp
qed

lemma shuttle_sort_returns:
  "\<exists>r. shuttle_sort ops v = Some r \<and> mset (vec r) = mset v
       \<and> last_pass r = (if v = [] then 1 else int (length v))
       \<and> (strict_weak_order (op_less ops)
            \<longrightarrow> non_decreasing (op_less ops) (vec r)
              \<and> (\<forall>z. filter (equivalent (op_less ops) z) (vec r)
                       = filter (equivalent (op_less ops) z) v))"
proof -
  from shuttle_outer_whole [of ops "\<not> 10 < length v" v 0 0 "if 10 < length v then debug_off else []"]
  obtain r where "shuttle_outer ops (\<not> 10 < length v) v (int (length v)) 0 1 0 0
                    (if 10 < length v then debug_off else []) = Some r"
    and "mset (vec r) = mset v"
    and "last_pass r = (if v = [] then 1 else int (length v))"
    and "strict_weak_order (op_less ops)
            \<longrightarrow> non_decreasing (op_less ops) (vec r)
              \<and> (\<forall>z. filter (equivalent (op_less ops) z) (vec r)
                       = filter (equivalent (op_less ops) z) v)"
    by blast
  then show ?thesis
    by (intro exI [of _ "r\<lparr>console := console r
            @ totals_report (total_comparisons r) (total_swaps r)\<rparr>"])
      (simp add: shuttle_sort_def Let_def)
qed





section \<open>Quick sort on segments\<close>

lemma valid_int [simp]: "valid v (int n) \<longleftrightarrow> n < length v"
  by (simp add: valid_def)

lemma deref_int [simp]: "deref v (int n) = v ! n"
  by (simp add: deref_def)

lemma assign_int [simp]: "assign v (int n) x = v[n := x]"
  by (simp add: assign_def)

lemma partition_loop_stop:
  "partition_loop ops debug v out p p e2 = Some (v, out, p, e2)"
  by (simp add: partition_loop.simps)

lemma partition_loop_step:
  "e1 \<noteq> pivot_it
   \<Longrightarrow> partition_body ops debug v out e1 pivot_it e2 = Some (v', out', e1', pivot_it', e2')
   \<Longrightarrow> partition_loop ops debug v out e1 pivot_it e2
       = partition_loop ops debug v' out' e1' pivot_it' e2'"
  by (subst partition_loop.simps) simp

lemma partition_body_nat:
  "partition_body ops debug v out (int i) (int k) (int k - 1) =
     (if i < length v \<and> k < length v then
        (if op_greater ops (v ! i) (v ! k) then
           (if 0 < k then
              (let v1 = v[i := v ! (k - 1)];
                   v2 = v1[k - 1 := v1 ! k];
                   v3 = v2[k := v ! i]
               in Some (v3, (if debug then out @ print_vector ops v3 else out),
                        int i, int (k - 1), int (k - 1) - 1))
            else None)
         else Some (v, out, int (i + 1), int k, int k - 1))
      else None)"
proof (cases "0 < k")
  case True
  then obtain j where k: "k = Suc j" by (cases k) auto
  have e: "int (Suc j) - 1 = int j" by simp
  show ?thesis
    unfolding k e by (simp add: partition_body_def Let_def del: of_nat_Suc)
next
  case False
  then show ?thesis
    by (simp add: partition_body_def Let_def valid_def deref_def assign_def)
qed

lemma partition_body_advance:
  assumes "\<not> op_greater ops u p"
  shows "partition_body ops debug (xs @ (u # us) @ p # zs) out (int (length xs))
           (int (length xs + length (u # us))) (int (length xs + length (u # us)) - 1)
         = Some ((xs @ [u]) @ us @ p # zs, out, int (length (xs @ [u])),
                 int (length (xs @ [u]) + length us), int (length (xs @ [u]) + length us) - 1)"
  using assms by (subst partition_body_nat) (simp add: nth_append)

lemma partition_body_swap:
  assumes "op_greater ops u p"
  shows "partition_body ops debug (xs @ [u] @ p # zs) out (int (length xs))
           (int (length xs + length [u])) (int (length xs + length [u]) - 1)
         = Some (xs @ [] @ p # u # zs,
                 (if debug then out @ print_vector ops (xs @ p # u # zs) else out),
                 int (length xs), int (length xs + length ([] :: 'a list)),
                 int (length xs + length ([] :: 'a list)) - 1)"
  using assms
  by (subst partition_body_nat) (simp add: nth_append list_update_append Let_def)

lemma partition_body_rotate:
  assumes "op_greater ops u p"
  shows "partition_body ops debug (xs @ (u # ys @ [w]) @ p # zs) out (int (length xs))
           (int (length xs + length (u # ys @ [w]))) (int (length xs + length (u # ys @ [w])) - 1)
         = Some (xs @ (w # ys) @ p # u # zs,
                 (if debug then out @ print_vector ops (xs @ (w # ys) @ p # u # zs) else out),
                 int (length xs), int (length xs + length (w # ys)),
                 int (length xs + length (w # ys)) - 1)"
  using assms
  by (subst partition_body_nat) (simp add: nth_append list_update_append Let_def)

lemma partition_loop_segment:
  "\<exists>L R out'.
     partition_loop ops debug (xs @ U @ p # zs) out (int (length xs))
       (int (length xs + length U)) (int (length xs + length U) - 1)
     = Some (xs @ L @ p # R @ zs, out', int (length xs + length L),
             int (length xs + length L) - 1)
     \<and> mset L + mset R = mset U
     \<and> (\<forall>x\<in>set L. \<not> op_greater ops x p) \<and> (\<forall>x\<in>set R. op_greater ops x p)"
proof (induction "length U" arbitrary: xs U zs out rule: less_induct)
  case less
  show ?case
  proof (cases U)
    case Nil
    show ?thesis
      unfolding Nil
      by (rule exI [of _ "[]"], rule exI [of _ "[]"]) (simp add: partition_loop_stop)
  next
    case (Cons u us)
    have ne: "int (length xs) \<noteq> int (length xs + length (u # us))" by simp
    show ?thesis
    proof (cases "op_greater ops u p")
      case False
      have "length us < length U" using Cons by simp
      from less [OF this, of "xs @ [u]" zs out]
      obtain L R out' where
        run: "partition_loop ops debug ((xs @ [u]) @ us @ p # zs) out (int (length (xs @ [u])))
                (int (length (xs @ [u]) + length us)) (int (length (xs @ [u]) + length us) - 1)
              = Some ((xs @ [u]) @ L @ p # R @ zs, out', int (length (xs @ [u]) + length L),
                      int (length (xs @ [u]) + length L) - 1)"
        and ms: "mset L + mset R = mset us"
        and l: "\<forall>x\<in>set L. \<not> op_greater ops x p" and r: "\<forall>x\<in>set R. op_greater ops x p"
        by blast
      have "partition_loop ops debug (xs @ (u # us) @ p # zs) out (int (length xs))
              (int (length xs + length (u # us))) (int (length xs + length (u # us)) - 1)
            = Some (xs @ (u # L) @ p # R @ zs, out', int (length xs + length (u # L)),
                    int (length xs + length (u # L)) - 1)"
        unfolding partition_loop_step [OF ne partition_body_advance [OF False]] run
        by simp
      with ms l r False show ?thesis
        unfolding Cons by (intro exI [of _ "u # L"] exI [of _ R] exI [of _ out']) simp
    next
      case True
      show ?thesis
      proof (cases us rule: rev_cases)
        case Nil
        have ne1: "int (length xs) \<noteq> int (length xs + length [u])" by simp
        have "partition_loop ops debug (xs @ [u] @ p # zs) out (int (length xs))
                (int (length xs + length [u])) (int (length xs + length [u]) - 1)
              = Some (xs @ [] @ p # [u] @ zs,
                      (if debug then out @ print_vector ops (xs @ p # u # zs) else out),
                      int (length xs + length ([] :: 'a list)),
                      int (length xs + length ([] :: 'a list)) - 1)"
          by (subst partition_loop_step [OF ne1 partition_body_swap [OF True]])
            (simp add: partition_loop_stop)
        with True show ?thesis
          unfolding Cons Nil
          by (intro exI [of _ "[]"] exI [of _ "[u]"]
                exI [of _ "if debug then out @ print_vector ops (xs @ p # u # zs) else out"])
            simp
      next
        case (snoc ys w)
        let ?out = "if debug then out @ print_vector ops (xs @ (w # ys) @ p # u # zs) else out"
        have "length (w # ys) < length U" using Cons snoc by simp
        from less [OF this, of xs "u # zs" ?out]
        obtain L R out' where
          run: "partition_loop ops debug (xs @ (w # ys) @ p # u # zs) ?out (int (length xs))
                  (int (length xs + length (w # ys))) (int (length xs + length (w # ys)) - 1)
                = Some (xs @ L @ p # R @ u # zs, out', int (length xs + length L),
                        int (length xs + length L) - 1)"
          and ms: "mset L + mset R = mset (w # ys)"
          and l: "\<forall>x\<in>set L. \<not> op_greater ops x p" and r: "\<forall>x\<in>set R. op_greater ops x p"
          by blast
        have ne': "int (length xs) \<noteq> int (length xs + length (u # ys @ [w]))" by simp
        have "partition_loop ops debug (xs @ (u # ys @ [w]) @ p # zs) out (int (length xs))
                (int (length xs + length (u # ys @ [w])))
                (int (length xs + length (u # ys @ [w])) - 1)
              = Some (xs @ L @ p # (R @ [u]) @ zs, out', int (length xs + length L),
                      int (length xs + length L) - 1)"
          unfolding partition_loop_step [OF ne' partition_body_rotate [OF True]] run
          by simp
        moreover have "mset L + mset (R @ [u]) = mset (u # ys @ [w])"
          using ms by simp
        ultimately show ?thesis
          using l r True unfolding Cons snoc
          by (intro exI [of _ L] exI [of _ "R @ [u]"] exI [of _ out']) simp
      qed
    qed
  qed
qed

lemma quick_sort_base:
  "endp - start < 1 \<Longrightarrow> quick_sort ops v out start endp = Some (v, out)"
  by (subst quick_sort.simps) simp

lemma quick_sort_rec:
  "1 \<le> endp - start
   \<Longrightarrow> partition_loop ops (\<not> 10 < length v) v out start endp (endp - 1) = Some (v1, out1, p1, e2)
   \<Longrightarrow> quick_sort ops v out start endp
       = (case quick_sort ops v1 out1 (p1 + 1) endp of
            None \<Rightarrow> None
          | Some (v2, out2) \<Rightarrow> quick_sort ops v2 out2 start e2)"
  by (subst quick_sort.simps) (simp add: Let_def)

lemma quick_sort_join:
  assumes swo: "strict_weak_order (op_less ops)" and conv: "greater_converse ops"
    and L: "non_decreasing (op_less ops) L" and R: "non_decreasing (op_less ops) R"
    and l: "\<forall>x\<in>set L. \<not> op_greater ops x p" and r: "\<forall>x\<in>set R. op_greater ops x p"
  shows "non_decreasing (op_less ops) (L @ p # R)"
proof -
  let ?lt = "op_less ops"
  have l': "\<not> ?lt p x" if "x \<in> set L" for x using l conv that by (simp add: greater_converse_def)
  have r': "?lt p y" if "y \<in> set R" for y using r conv that by (simp add: greater_converse_def)
  have a: "\<not> ?lt y p" if "y \<in> set R" for y using swo_asym [OF swo r' [OF that]] .
  have b: "\<not> ?lt y x" if "x \<in> set L" "y \<in> set R" for x y
    using swo_trans [OF swo r' [OF that(2)], of x] l' [OF that(1)] by blast
  show ?thesis
    using L R l' a b by (auto simp: non_decreasing_append non_decreasing_Cons)
qed

lemma quick_sort_segment:
  "\<exists>seg' out'.
     quick_sort ops (pre @ seg @ post) out (int (length pre)) (int (length pre + length seg) - 1)
     = Some (pre @ seg' @ post, out')
     \<and> mset seg' = mset seg
     \<and> (strict_weak_order (op_less ops) \<longrightarrow> greater_converse ops
          \<longrightarrow> non_decreasing (op_less ops) seg')"
proof (induction "length seg" arbitrary: pre seg post out rule: less_induct)
  case less
  show ?case
  proof (cases "length seg \<le> 1")
    case True
    then have "int (length pre + length seg) - 1 - int (length pre) < 1" by simp
    from quick_sort_base [OF this] True show ?thesis
      by (intro exI [of _ seg] exI [of _ out]) (simp add: non_decreasing_short)
  next
    case False
    then obtain U p where seg: "seg = U @ [p]" and U: "U \<noteq> []"
      by (cases seg rule: rev_cases) auto
    let ?v = "pre @ seg @ post"
    let ?endp = "int (length pre + length seg) - 1"
    have endp: "?endp = int (length pre + length U)" using seg by simp
    have range: "1 \<le> ?endp - int (length pre)" using U seg by (cases U) simp_all
    from partition_loop_segment [of ops "\<not> 10 < length ?v" pre U p post out]
    obtain L R out1 where
      part: "partition_loop ops (\<not> 10 < length ?v) (pre @ U @ p # post) out (int (length pre))
               (int (length pre + length U)) (int (length pre + length U) - 1)
             = Some (pre @ L @ p # R @ post, out1, int (length pre + length L),
                     int (length pre + length L) - 1)"
      and ms: "mset L + mset R = mset U"
      and l: "\<forall>x\<in>set L. \<not> op_greater ops x p" and r: "\<forall>x\<in>set R. op_greater ops x p"
      by blast
    have len: "length L + length R = length U"
      using ms by (metis length_append mset_append size_mset)
    have part': "partition_loop ops (\<not> 10 < length ?v) ?v out (int (length pre)) ?endp (?endp - 1)
                 = Some (pre @ L @ p # R @ post, out1, int (length pre + length L),
                         int (length pre + length L) - 1)"
      unfolding endp using part by (simp add: seg)
    \<comment> \<open>the range to the right of the pivot\<close>
    have "length R < length seg" using len seg by simp
    from less [OF this, of "pre @ L @ [p]" post out1]
    obtain R' out2 where
      right: "quick_sort ops ((pre @ L @ [p]) @ R @ post) out1 (int (length (pre @ L @ [p])))
                (int (length (pre @ L @ [p]) + length R) - 1)
              = Some ((pre @ L @ [p]) @ R' @ post, out2)"
      and msR: "mset R' = mset R"
      and sR: "strict_weak_order (op_less ops) \<longrightarrow> greater_converse ops
               \<longrightarrow> non_decreasing (op_less ops) R'"
      by blast
    have right': "quick_sort ops (pre @ L @ p # R @ post) out1 (int (length pre + length L) + 1) ?endp
                  = Some (pre @ L @ p # R' @ post, out2)"
    proof -
      have eq1: "int (length (pre @ L @ [p]) + length R) - 1 = ?endp"
        using len seg by simp
      have eq2: "int (length (pre @ L @ [p])) = int (length pre + length L) + 1" by simp
      from right show ?thesis unfolding eq1 eq2 by simp
    qed
    \<comment> \<open>the range to the left of the pivot\<close>
    have "length L < length seg" using len seg by simp
    from less [OF this, of pre "p # R' @ post" out2]
    obtain L' out3 where
      left: "quick_sort ops (pre @ L @ p # R' @ post) out2 (int (length pre))
               (int (length pre + length L) - 1)
             = Some (pre @ L' @ p # R' @ post, out3)"
      and msL: "mset L' = mset L"
      and sL: "strict_weak_order (op_less ops) \<longrightarrow> greater_converse ops
               \<longrightarrow> non_decreasing (op_less ops) L'"
      by blast
    have result: "quick_sort ops ?v out (int (length pre)) ?endp
                  = Some (pre @ (L' @ p # R') @ post, out3)"
      by (subst quick_sort_rec [OF range part'])
        (simp only: right' left option.case prod.case append.simps append_assoc)
    have mset: "mset (L' @ p # R') = mset seg"
      using msL msR ms seg by simp
    have sorted: "non_decreasing (op_less ops) (L' @ p # R')"
      if swo: "strict_weak_order (op_less ops)" and conv: "greater_converse ops"
    proof (rule quick_sort_join [OF swo conv])
      show "non_decreasing (op_less ops) L'" using sL swo conv by blast
      show "non_decreasing (op_less ops) R'" using sR swo conv by blast
      show "\<forall>x\<in>set L'. \<not> op_greater ops x p" using l msL by (metis set_mset_mset)
      show "\<forall>x\<in>set R'. op_greater ops x p" using r msR by (metis set_mset_mset)
    qed
    from result mset sorted show ?thesis by blast
  qed
qed


lemma range_split:
  assumes "0 \<le> start" and "start \<le> endp" and "endp < int (length v)"
  obtains pre U p post where "v = pre @ U @ p # post" and "start = int (length pre)"
    and "endp = int (length pre + length U)" and "p = deref v endp"
proof -
  let ?s = "nat start" and ?e = "nat endp"
  let ?pre = "take ?s v" and ?U = "take (?e - ?s) (drop ?s v)" and ?post = "drop (Suc ?e) v"
  have se: "?s \<le> ?e" "?e < length v" using assms by simp_all
  have "drop ?s v = ?U @ drop (?e - ?s) (drop ?s v)"
    by (simp only: append_take_drop_id)
  also have "drop (?e - ?s) (drop ?s v) = drop ?e v" using se by simp
  also have "drop ?e v = v ! ?e # ?post" using se by (simp add: Cons_nth_drop_Suc)
  finally have "v = ?pre @ ?U @ v ! ?e # ?post"
    by (metis append_take_drop_id)
  moreover have "start = int (length ?pre)" using assms se by simp
  moreover have "endp = int (length ?pre + length ?U)" using assms se by simp
  moreover have "v ! ?e = deref v endp" by (simp add: deref_def)
  ultimately show ?thesis using that by metis
qed

lemma quick_sort_unfold_segment:
  "\<exists>L R out1 R' out2 L' out3.
     partition_loop ops (\<not> 10 < length (pre @ U @ p # post)) (pre @ U @ p # post) out
       (int (length pre)) (int (length pre + length U)) (int (length pre + length U) - 1)
     = Some (pre @ L @ p # R @ post, out1, int (length pre + length L),
             int (length pre + length L) - 1)
     \<and> mset L + mset R = mset U
     \<and> (\<forall>x\<in>set L. \<not> op_greater ops x p) \<and> (\<forall>x\<in>set R. op_greater ops x p)
     \<and> quick_sort ops (pre @ L @ p # R @ post) out1 (int (length pre + length L) + 1)
          (int (length pre + length U))
        = Some (pre @ L @ p # R' @ post, out2)
     \<and> mset R' = mset R
     \<and> quick_sort ops (pre @ L @ p # R' @ post) out2 (int (length pre))
          (int (length pre + length L) - 1)
        = Some (pre @ L' @ p # R' @ post, out3)
     \<and> mset L' = mset L
     \<and> (U \<noteq> [] \<longrightarrow>
          quick_sort ops (pre @ U @ p # post) out (int (length pre)) (int (length pre + length U))
          = Some (pre @ L' @ p # R' @ post, out3))"
proof -
  let ?v = "pre @ U @ p # post"
  from partition_loop_segment [of ops "\<not> 10 < length ?v" pre U p post out]
  obtain L R out1 where
    part: "partition_loop ops (\<not> 10 < length ?v) ?v out (int (length pre))
             (int (length pre + length U)) (int (length pre + length U) - 1)
           = Some (pre @ L @ p # R @ post, out1, int (length pre + length L),
                   int (length pre + length L) - 1)"
    and ms: "mset L + mset R = mset U"
    and l: "\<forall>x\<in>set L. \<not> op_greater ops x p" and r: "\<forall>x\<in>set R. op_greater ops x p"
    by blast
  have len: "length L + length R = length U"
    using ms by (metis length_append mset_append size_mset)
  from quick_sort_segment [of ops "pre @ L @ [p]" R post out1]
  obtain R' out2 where
    right: "quick_sort ops ((pre @ L @ [p]) @ R @ post) out1 (int (length (pre @ L @ [p])))
              (int (length (pre @ L @ [p]) + length R) - 1)
            = Some ((pre @ L @ [p]) @ R' @ post, out2)"
    and msR: "mset R' = mset R"
    by blast
  have right': "quick_sort ops (pre @ L @ p # R @ post) out1 (int (length pre + length L) + 1)
                  (int (length pre + length U))
                = Some (pre @ L @ p # R' @ post, out2)"
  proof -
    have eq1: "int (length (pre @ L @ [p]) + length R) - 1 = int (length pre + length U)"
      using len by simp
    have eq2: "int (length (pre @ L @ [p])) = int (length pre + length L) + 1" by simp
    from right show ?thesis unfolding eq1 eq2 by simp
  qed
  from quick_sort_segment [of ops pre L "p # R' @ post" out2]
  obtain L' out3 where
    left: "quick_sort ops (pre @ L @ p # R' @ post) out2 (int (length pre))
             (int (length pre + length L) - 1)
           = Some (pre @ L' @ p # R' @ post, out3)"
    and msL: "mset L' = mset L"
    by blast
  have whole: "quick_sort ops ?v out (int (length pre)) (int (length pre + length U))
               = Some (pre @ L' @ p # R' @ post, out3)" if "U \<noteq> []"
  proof -
    have range: "1 \<le> int (length pre + length U) - int (length pre)"
      using that by (cases U) simp_all
    show ?thesis
      by (subst quick_sort_rec [OF range part])
        (simp only: right' left option.case prod.case)
  qed
  from part ms l r right' msR left msL whole show ?thesis by blast
qed

lemma segment_index:
  shows "deref (pre @ L @ p # R @ post) (int (length pre + length L)) = p"
    and "int (length pre) \<le> i \<Longrightarrow> i < int (length pre + length L)
         \<Longrightarrow> deref (pre @ L @ p # R @ post) i \<in> set L"
    and "int (length pre + length L) < i \<Longrightarrow> i \<le> int (length pre + length L + length R)
         \<Longrightarrow> deref (pre @ L @ p # R @ post) i \<in> set R"
proof -
  let ?w = "pre @ L @ p # R @ post"
  show "deref ?w (int (length pre + length L)) = p"
    unfolding deref_int by (simp add: nth_append)
next
  let ?w = "pre @ L @ p # R @ post"
  assume a: "int (length pre) \<le> i" "i < int (length pre + length L)"
  then have "nat i - length pre < length L" "\<not> nat i < length pre" by auto
  then have "?w ! nat i = L ! (nat i - length pre)" "L ! (nat i - length pre) \<in> set L"
    by (simp_all add: nth_append)
  then show "deref ?w i \<in> set L"
    by (simp add: deref_def)
next
  let ?w = "pre @ L @ p # R @ post"
  assume a: "int (length pre + length L) < i" "i \<le> int (length pre + length L + length R)"
  define k where "k = nat i - length pre - length L - 1"
  from a have k: "k < length R" "nat i = length pre + (length L + Suc k)"
    by (auto simp: k_def)
  have "?w ! (length pre + (length L + Suc k)) = R ! k"
    using k(1) by (simp add: nth_append)
  with k show "deref ?w i \<in> set R"
    by (simp add: deref_def)
qed

lemma partition_loop_returns:
  assumes "0 \<le> start" and "start < endp" and "endp < int (length v)"
  shows "\<exists>v' out' p. partition_loop ops debug v out start endp (endp - 1)
                       = Some (v', out', p, p - 1)
                     \<and> start \<le> p \<and> p \<le> endp"
proof -
  from assms(2) have "start \<le> endp" by simp
  from range_split [OF assms(1) this assms(3)]
  obtain pre U pv post where v: "v = pre @ U @ pv # post"
    and start: "start = int (length pre)" and endp: "endp = int (length pre + length U)"
    and pv: "pv = deref v endp"
    by blast
  from partition_loop_segment [of ops debug pre U pv post out]
  obtain L R out1 where
    part: "partition_loop ops debug v out start endp (endp - 1)
           = Some (pre @ L @ pv # R @ post, out1, int (length pre + length L),
                   int (length pre + length L) - 1)"
    and ms: "mset L + mset R = mset U"
    unfolding v [symmetric] start [symmetric] endp [symmetric] by blast
  have "length L + length R = length U"
    using ms by (metis length_append mset_append size_mset)
  then have "start \<le> int (length pre + length L)" "int (length pre + length L) \<le> endp"
    using start endp by simp_all
  with part show ?thesis by blast
qed

lemma quick_sort_range_returns:
  assumes "0 \<le> start" and "endp < int (length v)"
  shows "\<exists>vf outf. quick_sort ops v out start endp = Some (vf, outf) \<and> mset vf = mset v"
proof (cases "start \<le> endp")
  case False
  then show ?thesis by (simp add: quick_sort_base)
next
  case True
  from range_split [OF assms(1) True assms(2)]
  obtain pre U pv post where v: "v = pre @ U @ pv # post"
    and start: "start = int (length pre)" and endp: "endp = int (length pre + length U)"
    and pv: "pv = deref v endp"
    by blast
  have e: "int (length pre + length (U @ [pv])) - 1 = endp" using endp by simp
  from quick_sort_segment [of ops pre "U @ [pv]" post out]
  show ?thesis unfolding e start [symmetric] using v by auto
qed

section \<open>The comparison each routine uses\<close>

lemma bubble_inner_less_only:
  "op_less ops' = op_less ops
   \<Longrightarrow> bubble_inner ops' v e1 e2 endp c s = bubble_inner ops v e1 e2 endp c s"
proof (induction ops v e1 e2 endp c s rule: bubble_inner.induct)
  case (1 ops v e1 e2 endp comparisons swaps)
  show ?case
    using 1
    by (subst bubble_inner.simps [of ops'], subst bubble_inner.simps [of ops])
      (simp add: Let_def)
qed

lemma pass_report_put_only:
  "op_put ops' = op_put ops \<Longrightarrow> pass_report ops' p c s v = pass_report ops p c s v"
  by (simp add: pass_report_def print_vector_def)

lemma bubble_outer_less_put_only:
  "op_less ops' = op_less ops \<Longrightarrow> op_put ops' = op_put ops
   \<Longrightarrow> bubble_outer ops' debug v endp pass ct st out = bubble_outer ops debug v endp pass ct st out"
proof (induction ops debug v endp pass ct st out rule: bubble_outer.induct)
  case (1 ops debug v endp pass comparisons_total swaps_total out)
  show ?case
    using 1
    by (subst bubble_outer.simps [of ops'], subst bubble_outer.simps [of ops])
      (auto simp: Let_def bubble_inner_less_only [of ops' ops] pass_report_put_only [of ops' ops]
         split: option.splits)
qed

lemma shuttle_inner_less_only:
  "op_less ops' = op_less ops
   \<Longrightarrow> shuttle_inner ops' v e1 e2 c s = shuttle_inner ops v e1 e2 c s"
proof (induction ops v e1 e2 c s rule: shuttle_inner.induct)
  case (1 ops v e1 e2 comparisons swaps)
  show ?case
    using 1
    by (subst shuttle_inner.simps [of ops'], subst shuttle_inner.simps [of ops])
      (simp add: Let_def)
qed

lemma shuttle_outer_less_put_only:
  "op_less ops' = op_less ops \<Longrightarrow> op_put ops' = op_put ops
   \<Longrightarrow> shuttle_outer ops' debug v n si pass ct st out = shuttle_outer ops debug v n si pass ct st out"
proof (induction ops debug v n si pass ct st out rule: shuttle_outer.induct)
  case (1 ops debug v n start_index pass comparisons_total swaps_total out)
  show ?case
    using 1
    by (subst shuttle_outer.simps [of ops'], subst shuttle_outer.simps [of ops])
      (auto simp: Let_def shuttle_inner_less_only [of ops' ops] pass_report_put_only [of ops' ops]
         split: option.splits)
qed

lemma bubble_and_shuttle_less_put_only:
  assumes "op_less ops' = op_less ops" and "op_put ops' = op_put ops"
  shows "bubble_sort ops' v = bubble_sort ops v" and "shuttle_sort ops' v = shuttle_sort ops v"
  using assms
  by (simp_all add: bubble_sort_def shuttle_sort_def bubble_outer_less_put_only [of ops' ops]
        shuttle_outer_less_put_only [of ops' ops])

section \<open>The driver\<close>




section \<open>Writing a vector and reading it back\<close>

lemma dump_vector_text:
  "is_open w output_file Out_mode
   \<Longrightarrow> files (dump_vector ops v output_file w) output_file
       = Some (concat (map (\<lambda>x. op_put ops x @ endl) v))"
  by (simp add: dump_vector_def)

lemma read_all_lines:
  assumes "op_get ops endl = None"
    and "\<forall>x\<in>set v. \<forall>rest. op_get ops (endl @ op_put ops x @ endl @ rest) = Some (x, endl @ rest)"
  shows "read_all ops (endl @ concat (map (\<lambda>x. op_put ops x @ endl) v)) = v"
  using assms(2)
proof (induction v)
  case Nil
  show ?case using assms(1) by (simp add: read_all.simps)
next
  case (Cons x v)
  have get: "op_get ops (endl @ op_put ops x @ endl @ concat (map (\<lambda>x. op_put ops x @ endl) v))
             = Some (x, endl @ concat (map (\<lambda>x. op_put ops x @ endl) v))"
    using Cons.prems by simp
  have shorter: "length (endl @ concat (map (\<lambda>x. op_put ops x @ endl) v))
                 < length (endl @ op_put ops x @ endl @ concat (map (\<lambda>x. op_put ops x @ endl) v))"
    by (simp add: endl_def)
  have "read_all ops (endl @ op_put ops x @ endl @ concat (map (\<lambda>x. op_put ops x @ endl) v))
        = x # read_all ops (endl @ concat (map (\<lambda>x. op_put ops x @ endl) v))"
    by (subst read_all.simps) (simp only: get option.case prod.case shorter if_True)
  also have "\<dots> = x # v" using Cons by simp
  finally show ?case by simp
qed

lemma read_all_text:
  assumes "op_get ops [] = None" and "op_get ops endl = None"
    and "\<forall>x\<in>set v. \<forall>rest.
           op_get ops (op_put ops x @ endl @ rest) = Some (x, endl @ rest)
           \<and> op_get ops (endl @ op_put ops x @ endl @ rest) = Some (x, endl @ rest)"
  shows "read_all ops (concat (map (\<lambda>x. op_put ops x @ endl) v)) = v"
proof (cases v)
  case Nil
  then show ?thesis using assms(1) by (simp add: read_all.simps)
next
  case (Cons x xs)
  let ?t = "concat (map (\<lambda>x. op_put ops x @ endl) xs)"
  have get: "op_get ops (op_put ops x @ endl @ ?t) = Some (x, endl @ ?t)"
    using assms(3) Cons by simp
  have "op_put ops x \<noteq> []"
  proof
    assume "op_put ops x = []"
    with assms(3) Cons have "op_get ops (endl @ []) = Some (x, endl @ [])"
      by (metis append_Nil list.set_intros(1))
    with assms(2) show False by simp
  qed
  then have shorter: "length (endl @ ?t) < length (op_put ops x @ endl @ ?t)" by simp
  have "read_all ops (op_put ops x @ endl @ ?t) = x # read_all ops (endl @ ?t)"
    by (subst read_all.simps) (simp only: get option.case prod.case shorter if_True)
  also have "\<dots> = x # xs"
    using read_all_lines [of ops xs] assms(2,3) Cons by simp
  finally show ?thesis using Cons by simp
qed

text \<open>Two elements with the same text cannot both come back.\<close>

lemma same_text_not_read_back:
  assumes "is_open w output_file Out_mode" and "op_put ops x = op_put ops y" and "x \<noteq> y"
  shows "\<not> (read_all ops (the (files (dump_vector ops [x] output_file w) output_file)) = [x]
            \<and> read_all ops (the (files (dump_vector ops [y] output_file w) output_file)) = [y])"
  using assms by (simp add: dump_vector_text)

text \<open>Some \<^verbatim>\<open>float\<close>s and their texts, and some texts and what is extracted from them:
  0.1 is not a \<^verbatim>\<open>float\<close>, and neither is 16777217.\<close>

lemma float_texts:
  "map put_float [1 / 2, 100, - (5 / 2), 1 / 1024, 999999, 1000000, 16777216]
   = [''0.5'', ''100'', ''-2.5'', ''0.000976562'', ''999999'', ''1e+06'', ''1.67772e+07'']"
  by code_simp

lemma float_extractions:
  "map get_float [''0.1'', '' 2.5e1 x'', ''-.5'', ''16777217'', ''1e'', ''abc'']
   = [Some (13421773 / 134217728, []), Some (25, '' x''), Some (- (1 / 2), []),
      Some (16777216, []), None, None]"
  by code_simp

text \<open>The texts of two numbers, and their extraction from any stream that goes on with
  a new line.\<close>

lemma put_float_half: "put_float (1 / 2) = ''0.5''"
  by code_simp

lemma put_float_six_digits: "put_float 1234570 = ''1.23457e+06''"
  by code_simp

lemma put_float_seven_digits: "put_float 1234567 = ''1.23457e+06''"
  by code_simp

lemma to_float_half: "to_float (1 / 2) = Some (1 / 2)"
  by code_simp

lemma to_float_six_digits: "to_float 1234570 = Some 1234570"
  by code_simp

lemma get_float_half:
  "get_float (''0.5'' @ endl @ rest) = Some (1 / 2, endl @ rest)"
  "get_float (endl @ ''0.5'' @ endl @ rest) = Some (1 / 2, endl @ rest)"
  by (simp_all add: get_float_def get_exponent_def is_space_def is_digit_def digits_value_def
      endl_def Let_def to_float_half power_int_def)

lemma get_float_six_digits:
  "get_float (''1.23457e+06'' @ endl @ rest) = Some (1234570, endl @ rest)"
  "get_float (endl @ ''1.23457e+06'' @ endl @ rest) = Some (1234570, endl @ rest)"
  by (simp_all add: get_float_def get_exponent_def is_space_def is_digit_def digits_value_def
      endl_def Let_def to_float_six_digits power_int_def)

lemma get_float_at_end: "get_float [] = None" "get_float endl = None"
  by (simp_all add: get_float_def is_space_def endl_def Let_def)

section \<open>A run of the three routines\<close>

lemma example_five_elements:
  "map_option vec (bubble_sort int_ops [5, 3, 1, 4, 2]) = Some [1, 2, 3, 4, 5]"
  "map_option vec (shuttle_sort int_ops [5, 3, 1, 4, 2]) = Some [1, 2, 3, 4, 5]"
  "map_option fst (quick_sort int_ops [5, 3, 1, 4, 2] [] 0 4) = Some [1, 2, 3, 4, 5]"
  by code_simp+

section \<open>The claims\<close>



text \<open>
  C2.  \<^verbatim>\<open>bubble_sort\<close> and \<^verbatim>\<open>shuttle_sort\<close> are stable: for every element \<open>z\<close>, the
  elements equivalent to \<open>z\<close> (neither less than the other) appear in the output in the
  order in which they appear in the input.
\<close>

theorem bubble_and_shuttle_stable:
  assumes "strict_weak_order (op_less ops)"
  shows "(\<exists>r. bubble_sort ops v = Some r
               \<and> (\<forall>z. filter (equivalent (op_less ops) z) (vec r)
                        = filter (equivalent (op_less ops) z) v))
       \<and> (\<exists>r. shuttle_sort ops v = Some r
               \<and> (\<forall>z. filter (equivalent (op_less ops) z) (vec r)
                        = filter (equivalent (op_less ops) z) v))"
proof
  from bubble_sort_sorts [OF assms, of v]
  show "\<exists>r. bubble_sort ops v = Some r
             \<and> (\<forall>z. filter (equivalent (op_less ops) z) (vec r)
                      = filter (equivalent (op_less ops) z) v)"
    by blast
  from shuttle_sort_returns [of ops v] assms
  show "\<exists>r. shuttle_sort ops v = Some r
             \<and> (\<forall>z. filter (equivalent (op_less ops) z) (vec r)
                      = filter (equivalent (op_less ops) z) v)"
    by blast
qed

theorem bubble_and_shuttle_stable_witness:
  "strict_weak_order (op_less tagged_ops)
   \<and> (\<exists>r. bubble_sort tagged_ops [(2, CHR ''a''), (1, CHR ''a''), (2, CHR ''b''), (1, CHR ''b'')]
             = Some r
           \<and> filter (equivalent (op_less tagged_ops) (1, CHR ''a'')) (vec r)
             = [(1, CHR ''a''), (1, CHR ''b'')]
           \<and> filter (equivalent (op_less tagged_ops) (2, CHR ''a'')) (vec r)
             = [(2, CHR ''a''), (2, CHR ''b'')])
   \<and> (\<exists>r. shuttle_sort tagged_ops [(2, CHR ''a''), (1, CHR ''a''), (2, CHR ''b''), (1, CHR ''b'')]
             = Some r
           \<and> filter (equivalent (op_less tagged_ops) (1, CHR ''a'')) (vec r)
             = [(1, CHR ''a''), (1, CHR ''b'')]
           \<and> filter (equivalent (op_less tagged_ops) (2, CHR ''a'')) (vec r)
             = [(2, CHR ''a''), (2, CHR ''b'')])"
proof -
  let ?v = "[(2, CHR ''a''), (1, CHR ''a''), (2, CHR ''b''), (1 :: int, CHR ''b'')]"
  have 1: "filter (equivalent (op_less tagged_ops) (1, CHR ''a'')) ?v
           = [(1, CHR ''a''), (1, CHR ''b'')]"
    by (simp add: equivalent_def tagged_ops_def)
  have 2: "filter (equivalent (op_less tagged_ops) (2, CHR ''a'')) ?v
           = [(2, CHR ''a''), (2, CHR ''b'')]"
    by (simp add: equivalent_def tagged_ops_def)
  from bubble_and_shuttle_stable [OF tagged_ops_ordered, of ?v] tagged_ops_ordered
  show ?thesis unfolding 1 [symmetric] 2 [symmetric] by metis
qed

text \<open>
  C3.  A call of \<^verbatim>\<open>quick_sort\<close> on a range of at least two elements inside the vector.
  When the loop is left, \<open>pivot_it\<close> is a position \<open>p\<close> of the range that holds the pivot
  (the element that was at \<open>endp\<close>), no element of the range before \<open>p\<close> is greater than
  the pivot and every element of the range after \<open>p\<close> is greater.  The routine then sorts
  the range from \<open>p + 1\<close> to \<open>endp\<close> and after it the range from \<open>start\<close> to \<open>p - 1\<close>; in
  the vector it returns the pivot is still at \<open>p\<close>, between the elements that are not
  greater and the elements that are greater.
\<close>

theorem quick_sort_pivot_position:
  assumes "0 \<le> start" and "start < endp" and "endp < int (length v)"
  shows "\<exists>v' out' p vr outr vf outf.
           partition_loop ops (\<not> 10 < length v) v out start endp (endp - 1)
             = Some (v', out', p, p - 1)
           \<and> start \<le> p \<and> p \<le> endp
           \<and> deref v' p = deref v endp
           \<and> (\<forall>i. start \<le> i \<and> i < p \<longrightarrow> \<not> op_greater ops (deref v' i) (deref v' p))
           \<and> (\<forall>i. p < i \<and> i \<le> endp \<longrightarrow> op_greater ops (deref v' i) (deref v' p))
           \<and> quick_sort ops v' out' (p + 1) endp = Some (vr, outr)
           \<and> quick_sort ops vr outr start (p - 1) = Some (vf, outf)
           \<and> quick_sort ops v out start endp = Some (vf, outf)
           \<and> deref vf p = deref v endp
           \<and> (\<forall>i. start \<le> i \<and> i < p \<longrightarrow> \<not> op_greater ops (deref vf i) (deref vf p))
           \<and> (\<forall>i. p < i \<and> i \<le> endp \<longrightarrow> op_greater ops (deref vf i) (deref vf p))"
proof -
  from assms(2) have "start \<le> endp" by simp
  from range_split [OF assms(1) this assms(3)]
  obtain pre U pv post where v: "v = pre @ U @ pv # post"
    and start: "start = int (length pre)" and endp: "endp = int (length pre + length U)"
    and pv: "pv = deref v endp"
    by blast
  from assms(2) start endp have U: "U \<noteq> []" by auto
  from quick_sort_unfold_segment [of ops pre U pv post out] U
  obtain L R out1 R' out2 L' out3 where
    part: "partition_loop ops (\<not> 10 < length v) v out start endp (endp - 1)
           = Some (pre @ L @ pv # R @ post, out1, int (length pre + length L),
                   int (length pre + length L) - 1)"
    and ms: "mset L + mset R = mset U"
    and l: "\<forall>x\<in>set L. \<not> op_greater ops x pv" and r: "\<forall>x\<in>set R. op_greater ops x pv"
    and right: "quick_sort ops (pre @ L @ pv # R @ post) out1 (int (length pre + length L) + 1) endp
                = Some (pre @ L @ pv # R' @ post, out2)"
    and msR: "mset R' = mset R"
    and left: "quick_sort ops (pre @ L @ pv # R' @ post) out2 start
                 (int (length pre + length L) - 1)
               = Some (pre @ L' @ pv # R' @ post, out3)"
    and msL: "mset L' = mset L"
    and whole: "quick_sort ops v out start endp = Some (pre @ L' @ pv # R' @ post, out3)"
    unfolding v [symmetric] start [symmetric] endp [symmetric] by blast
  let ?p = "int (length pre + length L)"
  let ?v' = "pre @ L @ pv # R @ post" and ?vf = "pre @ L' @ pv # R' @ post"
  have len: "length L + length R = length U"
    using ms by (metis length_append mset_append size_mset)
  have lenL: "length L' = length L" using msL by (metis size_mset)
  have lenR: "length R' = length R" using msR by (metis size_mset)
  have setL: "set L' = set L" using msL by (metis set_mset_mset)
  have setR: "set R' = set R" using msR by (metis set_mset_mset)
  have bounds: "start \<le> ?p" "?p \<le> endp" using start endp len by simp_all
  have piv: "deref ?v' ?p = pv" by (rule segment_index(1))
  have pivf: "deref ?vf ?p = pv" using segment_index(1) [of pre L' pv R' post] lenL by simp
  have before: "\<not> op_greater ops (deref ?v' i) (deref ?v' ?p)" if "start \<le> i" "i < ?p" for i
    using segment_index(2) [of pre i L pv R post] that l start piv by simp
  have after: "op_greater ops (deref ?v' i) (deref ?v' ?p)" if "?p < i" "i \<le> endp" for i
    using segment_index(3) [of pre L i R pv post] that r endp len piv by simp
  have beforef: "\<not> op_greater ops (deref ?vf i) (deref ?vf ?p)" if "start \<le> i" "i < ?p" for i
    using segment_index(2) [of pre i L' pv R' post] that l start pivf lenL setL by simp
  have afterf: "op_greater ops (deref ?vf i) (deref ?vf ?p)" if "?p < i" "i \<le> endp" for i
    using segment_index(3) [of pre L' i R' pv post] that r endp len pivf lenL lenR setR by simp
  have concl:
    "partition_loop ops (\<not> 10 < length v) v out start endp (endp - 1)
       = Some (?v', out1, ?p, ?p - 1)
     \<and> start \<le> ?p \<and> ?p \<le> endp
     \<and> deref ?v' ?p = deref v endp
     \<and> (\<forall>i. start \<le> i \<and> i < ?p \<longrightarrow> \<not> op_greater ops (deref ?v' i) (deref ?v' ?p))
     \<and> (\<forall>i. ?p < i \<and> i \<le> endp \<longrightarrow> op_greater ops (deref ?v' i) (deref ?v' ?p))
     \<and> quick_sort ops ?v' out1 (?p + 1) endp = Some (pre @ L @ pv # R' @ post, out2)
     \<and> quick_sort ops (pre @ L @ pv # R' @ post) out2 start (?p - 1) = Some (?vf, out3)
     \<and> quick_sort ops v out start endp = Some (?vf, out3)
     \<and> deref ?vf ?p = deref v endp
     \<and> (\<forall>i. start \<le> i \<and> i < ?p \<longrightarrow> \<not> op_greater ops (deref ?vf i) (deref ?vf ?p))
     \<and> (\<forall>i. ?p < i \<and> i \<le> endp \<longrightarrow> op_greater ops (deref ?vf i) (deref ?vf ?p))"
    using part bounds piv pv before after right left whole pivf beforef afterf
    by (simp only: simp_thms) blast
  show ?thesis
    by (rule exI [of _ ?v'], rule exI [of _ out1], rule exI [of _ ?p],
        rule exI [of _ "pre @ L @ pv # R' @ post"], rule exI [of _ out2],
        rule exI [of _ ?vf], rule exI [of _ out3]) (rule concl)
qed

theorem quick_sort_pivot_position_witness:
  "(0 :: int) \<le> 0 \<and> (0 :: int) < 4 \<and> 4 < int (length [5, 3, 1, 4, 2 :: int])
   \<and> (\<exists>v' out' p vr outr vf outf.
           partition_loop int_ops (\<not> 10 < length [5, 3, 1, 4, 2 :: int]) [5, 3, 1, 4, 2] [] 0 4 (4 - 1)
             = Some (v', out', p, p - 1)
           \<and> 0 \<le> p \<and> p \<le> 4
           \<and> deref v' p = deref [5, 3, 1, 4, 2] 4
           \<and> (\<forall>i. 0 \<le> i \<and> i < p \<longrightarrow> \<not> op_greater int_ops (deref v' i) (deref v' p))
           \<and> (\<forall>i. p < i \<and> i \<le> 4 \<longrightarrow> op_greater int_ops (deref v' i) (deref v' p))
           \<and> quick_sort int_ops v' out' (p + 1) 4 = Some (vr, outr)
           \<and> quick_sort int_ops vr outr 0 (p - 1) = Some (vf, outf)
           \<and> quick_sort int_ops [5, 3, 1, 4, 2] [] 0 4 = Some (vf, outf)
           \<and> deref vf p = deref [5, 3, 1, 4, 2] 4
           \<and> (\<forall>i. 0 \<le> i \<and> i < p \<longrightarrow> \<not> op_greater int_ops (deref vf i) (deref vf p))
           \<and> (\<forall>i. p < i \<and> i \<le> 4 \<longrightarrow> op_greater int_ops (deref vf i) (deref vf p)))"
proof -
  have h: "(0 :: int) \<le> 0" "(0 :: int) < 4" "4 < int (length [5, 3, 1, 4, 2 :: int])"
    by simp_all
  from quick_sort_pivot_position [OF h, of int_ops "[]"] h show ?thesis
    by (simp only: simp_thms)
qed






text \<open>
  C6.  On the empty vector and on a vector of one element the three routines return
  the vector as it is, without reading outside it; on the empty vector the totals of
  \<^verbatim>\<open>bubble_sort\<close> and \<^verbatim>\<open>shuttle_sort\<close> are zero.
\<close>

theorem empty_and_single_unchanged:
  "(\<exists>r. bubble_sort ops [] = Some r \<and> vec r = []
          \<and> total_comparisons r = 0 \<and> total_swaps r = 0)
   \<and> (\<exists>r. shuttle_sort ops [] = Some r \<and> vec r = []
          \<and> total_comparisons r = 0 \<and> total_swaps r = 0)
   \<and> quick_sort ops [] out 0 (int (length ([] :: 'a list)) - 1) = Some ([], out)
   \<and> (\<exists>r. bubble_sort ops [x] = Some r \<and> vec r = [x])
   \<and> (\<exists>r. shuttle_sort ops [x] = Some r \<and> vec r = [x])
   \<and> quick_sort ops [x] out 0 (int (length [x]) - 1) = Some ([x], out)"
proof (intro conjI)
  show "\<exists>r. bubble_sort ops [] = Some r \<and> vec r = []
          \<and> total_comparisons r = 0 \<and> total_swaps r = 0"
    using bubble_outer_last [of ops "[]" _ "[]"] by (simp add: bubble_sort_def wrap_int_zero)
  show "\<exists>r. shuttle_sort ops [] = Some r \<and> vec r = []
          \<and> total_comparisons r = 0 \<and> total_swaps r = 0"
    by (simp add: shuttle_sort_def shuttle_outer.simps)
  show "quick_sort ops [] out 0 (int (length ([] :: 'a list)) - 1) = Some ([], out)"
    by (simp add: quick_sort_base)
  show "\<exists>r. bubble_sort ops [x] = Some r \<and> vec r = [x]"
    using bubble_outer_last [of ops "[x]" _ "[]"] by (simp add: bubble_sort_def)
  show "\<exists>r. shuttle_sort ops [x] = Some r \<and> vec r = [x]"
    by (simp add: shuttle_sort_def shuttle_outer.simps)
  show "quick_sort ops [x] out 0 (int (length [x]) - 1) = Some ([x], out)"
    by (simp add: quick_sort_base)
qed

text \<open>
  C7.  \<^verbatim>\<open>bubble_sort\<close> and \<^verbatim>\<open>shuttle_sort\<close> compare with \<^verbatim>\<open><\<close> only, but
  \<^verbatim>\<open>quick_sort\<close> compares with \<^verbatim>\<open>>\<close>: on the two cats of weight 2 and 1, with
  the \<^verbatim>\<open><\<close> of the class and a \<^verbatim>\<open>>\<close> that never holds, it returns them as they
  came, and with the converse of \<^verbatim>\<open><\<close> as \<^verbatim>\<open>>\<close> it sorts them.  The other two
  routines sort them whatever \<^verbatim>\<open>>\<close> is.
\<close>

theorem quick_sort_decides_by_greater:
  "quick_sort (cat_ops (\<lambda>a b. False)) [\<lparr>m_weight = 2\<rparr>, \<lparr>m_weight = 1\<rparr>] [] 0 1
     = Some ([\<lparr>m_weight = 2\<rparr>, \<lparr>m_weight = 1\<rparr>], [])
   \<and> map_option fst
        (quick_sort (cat_ops (\<lambda>a b. cat_less b a)) [\<lparr>m_weight = 2\<rparr>, \<lparr>m_weight = 1\<rparr>] [] 0 1)
     = Some [\<lparr>m_weight = 1\<rparr>, \<lparr>m_weight = 2\<rparr>]
   \<and> map_option vec (bubble_sort (cat_ops (\<lambda>a b. False)) [\<lparr>m_weight = 2\<rparr>, \<lparr>m_weight = 1\<rparr>])
     = Some [\<lparr>m_weight = 1\<rparr>, \<lparr>m_weight = 2\<rparr>]
   \<and> map_option vec (shuttle_sort (cat_ops (\<lambda>a b. False)) [\<lparr>m_weight = 2\<rparr>, \<lparr>m_weight = 1\<rparr>])
     = Some [\<lparr>m_weight = 1\<rparr>, \<lparr>m_weight = 2\<rparr>]"
  by code_simp

text \<open>
  C8.  \<^verbatim>\<open>dump_vector\<close> writes the text of every element and a new line after it, and
  the loop \<^verbatim>\<open>while (data >> number)\<close> reads the elements of a text one after the other.
  What is read from the file that \<^verbatim>\<open>dump_vector\<close> wrote is the vector that was written,
  sorted or not, provided that the extraction gives back every element of the vector from
  its text, at the beginning of the stream and after a new line, and fails at the end of
  the stream.
\<close>

theorem dump_vector_read_back:
  assumes "is_open w output_file Out_mode"
    and "op_get ops [] = None" and "op_get ops endl = None"
    and "\<forall>x\<in>set v. \<forall>rest.
           op_get ops (op_put ops x @ endl @ rest) = Some (x, endl @ rest)
           \<and> op_get ops (endl @ op_put ops x @ endl @ rest) = Some (x, endl @ rest)"
  shows "read_all ops (the (files (dump_vector ops v output_file w) output_file)) = v"
  using read_all_text [OF assms(2,3,4)] dump_vector_text [OF assms(1), of ops v] by simp

theorem dump_vector_read_back_witness:
  "is_open open_world ''out1.dat'' Out_mode
   \<and> op_get float_ops [] = None \<and> op_get float_ops endl = None
   \<and> (\<forall>rest. op_get float_ops (op_put float_ops (1 / 2) @ endl @ rest)
                = Some (1 / 2, endl @ rest))
   \<and> (\<forall>rest. op_get float_ops (endl @ op_put float_ops (1 / 2) @ endl @ rest)
                = Some (1 / 2, endl @ rest))
   \<and> (\<forall>rest. op_get float_ops (op_put float_ops 1234570 @ endl @ rest)
                = Some (1234570, endl @ rest))
   \<and> (\<forall>rest. op_get float_ops (endl @ op_put float_ops 1234570 @ endl @ rest)
                = Some (1234570, endl @ rest))
   \<and> read_all float_ops
         (the (files (dump_vector float_ops [1 / 2, 1234570] ''out1.dat'' open_world) ''out1.dat''))
       = [1 / 2, 1234570]"
proof -
  have o: "is_open open_world ''out1.dat'' Out_mode"
    by (simp add: is_open_def open_world_def)
  have e: "op_get float_ops [] = None" "op_get float_ops endl = None"
    by (simp_all add: float_ops_def get_float_at_end)
  have h: "op_get float_ops (op_put float_ops (1 / 2) @ endl @ rest) = Some (1 / 2, endl @ rest)"
    "op_get float_ops (endl @ op_put float_ops (1 / 2) @ endl @ rest) = Some (1 / 2, endl @ rest)"
    for rest
    using get_float_half [of rest] by (simp_all add: float_ops_def put_float_half)
  have s: "op_get float_ops (op_put float_ops 1234570 @ endl @ rest) = Some (1234570, endl @ rest)"
    "op_get float_ops (endl @ op_put float_ops 1234570 @ endl @ rest) = Some (1234570, endl @ rest)"
    for rest
    using get_float_six_digits [of rest] by (simp_all add: float_ops_def put_float_six_digits)
  have r: "\<forall>x\<in>set [1 / 2, 1234570]. \<forall>rest.
           op_get float_ops (op_put float_ops x @ endl @ rest) = Some (x, endl @ rest)
           \<and> op_get float_ops (endl @ op_put float_ops x @ endl @ rest) = Some (x, endl @ rest)"
    using h s by simp
  from dump_vector_read_back [OF o e r] o e h s show ?thesis by blast
qed

text \<open>
  The text of a \<^verbatim>\<open>float\<close> has six significant digits, and a \<^verbatim>\<open>float\<close> can hold more.
  The numbers 0.5 and 1234567 are read from a file as they stand, and are in order; for
  1234567 \<^verbatim>\<open>dump_vector\<close> writes \<^verbatim>\<open>1.23457e+06\<close>, which is read as 1234570.
\<close>

theorem float_dump_not_read_back:
  "is_open open_world ''out1.dat'' Out_mode
   \<and> read_all float_ops (''0.5'' @ endl @ ''1234567'' @ endl) = [1 / 2, 1234567]
   \<and> non_decreasing (op_less float_ops) [1 / 2, 1234567]
   \<and> files (dump_vector float_ops [1 / 2, 1234567] ''out1.dat'' open_world) ''out1.dat''
       = Some (''0.5'' @ endl @ ''1.23457e+06'' @ endl)
   \<and> read_all float_ops
         (the (files (dump_vector float_ops [1 / 2, 1234567] ''out1.dat'' open_world) ''out1.dat''))
       = [1 / 2, 1234570]
   \<and> read_all float_ops
         (the (files (dump_vector float_ops [1 / 2, 1234567] ''out1.dat'' open_world) ''out1.dat''))
       \<noteq> [1 / 2, 1234567]"
  by code_simp



text \<open>
  C10.  \<^verbatim>\<open>quick_sort\<close> returns on every range inside the vector.  An iteration of its
  loop either moves the pivot one place to the left and leaves \<open>e1\<close> where it is, or
  moves \<open>e1\<close> one place to the right: the distance from \<open>e1\<close> to \<open>pivot_it\<close> gets
  smaller, and \<open>e1\<close> never passes the pivot.  The loop ends with the pivot inside the
  range, so both recursive calls get a range with fewer positions.
\<close>

theorem quick_sort_terminates:
  "(0 \<le> e1 \<and> e1 < pivot_it \<and> pivot_it < int (length v) \<longrightarrow>
      (\<exists>v' out' e1' pivot_it'.
         partition_body ops debug v out e1 pivot_it (pivot_it - 1)
           = Some (v', out', e1', pivot_it', pivot_it' - 1)
         \<and> length v' = length v
         \<and> (if op_greater ops (deref v e1) (deref v pivot_it)
             then e1' = e1 \<and> pivot_it' = pivot_it - 1
             else e1' = e1 + 1 \<and> pivot_it' = pivot_it)
         \<and> e1' \<le> pivot_it' \<and> pivot_it' - e1' < pivot_it - e1))
   \<and> (0 \<le> start \<and> start < endp \<and> endp < int (length w) \<longrightarrow>
      (\<exists>w' out' p.
         partition_loop ops (\<not> 10 < length w) w out start endp (endp - 1)
           = Some (w', out', p, p - 1)
         \<and> start \<le> p \<and> p \<le> endp
         \<and> endp - (p + 1) < endp - start \<and> (p - 1) - start < endp - start))
   \<and> (0 \<le> start \<and> endp < int (length w) \<longrightarrow>
      (\<exists>wf outf. quick_sort ops w out start endp = Some (wf, outf)))"
proof (intro conjI impI)
  assume a: "0 \<le> e1 \<and> e1 < pivot_it \<and> pivot_it < int (length v)"
  then have ok: "valid v e1" "valid v pivot_it" "valid v (pivot_it - 1)"
    by (simp_all add: valid_def)
  show "\<exists>v' out' e1' pivot_it'.
         partition_body ops debug v out e1 pivot_it (pivot_it - 1)
           = Some (v', out', e1', pivot_it', pivot_it' - 1)
         \<and> length v' = length v
         \<and> (if op_greater ops (deref v e1) (deref v pivot_it)
             then e1' = e1 \<and> pivot_it' = pivot_it - 1
             else e1' = e1 + 1 \<and> pivot_it' = pivot_it)
         \<and> e1' \<le> pivot_it' \<and> pivot_it' - e1' < pivot_it - e1"
    using a ok by (simp add: partition_body_def Let_def assign_def)
next
  assume "0 \<le> start \<and> start < endp \<and> endp < int (length w)"
  then have "0 \<le> start" "start < endp" "endp < int (length w)" by simp_all
  from partition_loop_returns [OF this, of ops "\<not> 10 < length w" out]
  show "\<exists>w' out' p.
         partition_loop ops (\<not> 10 < length w) w out start endp (endp - 1)
           = Some (w', out', p, p - 1)
         \<and> start \<le> p \<and> p \<le> endp
         \<and> endp - (p + 1) < endp - start \<and> (p - 1) - start < endp - start"
    by force
next
  assume "0 \<le> start \<and> endp < int (length w)"
  then have "0 \<le> start" "endp < int (length w)" by simp_all
  from quick_sort_range_returns [OF this, of ops out]
  show "\<exists>wf outf. quick_sort ops w out start endp = Some (wf, outf)" by blast
qed

theorem quick_sort_terminates_witness:
  "(0 :: int) \<le> 0 \<and> (0 :: int) < 4 \<and> 4 < int (length [5, 3, 1, 4, 2 :: int])
   \<and> partition_body int_ops True [5, 3, 1, 4, 2] [] 0 4 (4 - 1)
       = Some ([4, 3, 1, 2, 5], print_vector int_ops [4, 3, 1, 2, 5], 0, 3, 3 - 1)
   \<and> (\<exists>w' out' p.
         partition_loop int_ops (\<not> 10 < length [5, 3, 1, 4, 2 :: int]) [5, 3, 1, 4, 2] [] 0 4 (4 - 1)
           = Some (w', out', p, p - 1)
         \<and> 0 \<le> p \<and> p \<le> 4 \<and> 4 - (p + 1) < 4 - 0 \<and> (p - 1) - 0 < 4 - 0)
   \<and> (\<exists>wf outf. quick_sort int_ops [5, 3, 1, 4, 2] [] 0 4 = Some (wf, outf))"
proof -
  have h: "(0 :: int) \<le> 0 \<and> (0 :: int) < 4 \<and> 4 < int (length [5, 3, 1, 4, 2 :: int])"
    by simp
  have h': "(0 :: int) \<le> 0 \<and> 4 < int (length [5, 3, 1, 4, 2 :: int])" by simp
  have gt: "op_greater int_ops (deref [5, 3, 1, 4, 2] 0) (deref [5, 3, 1, 4, 2] 4)"
    by (simp add: int_ops_def deref_def)
  note t = quick_sort_terminates [of 0 4 "[5, 3, 1, 4, 2]" int_ops True "[]" 0 4 "[5, 3, 1, 4, 2]"]
  from t h gt
  have "\<exists>v' out'. partition_body int_ops True [5, 3, 1, 4, 2] [] 0 4 (4 - 1)
           = Some (v', out', 0, 3, 3 - 1)"
    by auto
  then have body: "partition_body int_ops True [5, 3, 1, 4, 2] [] 0 4 (4 - 1)
       = Some ([4, 3, 1, 2, 5], print_vector int_ops [4, 3, 1, 2, 5], 0, 3, 3 - 1)"
    by (auto simp: partition_body_def Let_def valid_def deref_def assign_def split: if_splits)
  from t h h' body show ?thesis by simp
qed

end
